theory Spec2Isabelle
  imports Main
begin

section \<open>Bytes and the ANSI colour codes\<close>

text \<open>
  Go strings and byte slices are sequences of bytes; they are modelled as \<open>string\<close>
  (a list of \<open>char\<close>, each one byte). Printed output is the list of the lines handed to
  \<^verbatim>\<open>fmt.Println\<close>, in order.
\<close>

definition NL :: char where "NL = CHR 0x0A"
definition CR :: char where "CR = CHR 0x0D"
definition ESC :: char where "ESC = CHR 0x1B"
definition DQUOTE :: char where "DQUOTE = CHR 0x22"
definition SQUOTE :: char where "SQUOTE = CHR 0x27"
definition BACKSLASH :: char where "BACKSLASH = CHR 0x5C"

definition ansiReset :: string where "ansiReset = ESC # ''[0m''"
definition ansiDim :: string where "ansiDim = ESC # ''[2m''"
definition ansiBold :: string where "ansiBold = ESC # ''[1m''"
definition ansiRed :: string where "ansiRed = ESC # ''[31m''"
definition ansiGreen :: string where "ansiGreen = ESC # ''[32m''"
definition ansiYellow :: string where "ansiYellow = ESC # ''[33m''"
definition ansiBlue :: string where "ansiBlue = ESC # ''[34m''"
definition ansiMagenta :: string where "ansiMagenta = ESC # ''[35m''"
definition ansiCyan :: string where "ansiCyan = ESC # ''[36m''"

text \<open>The slice expression \<^verbatim>\<open>s[a:b]\<close> for \<open>a \<le> b \<le> len(s)\<close>.\<close>

definition slice :: "string \<Rightarrow> nat \<Rightarrow> nat \<Rightarrow> string" where
  "slice s a b = take (b - a) (drop a s)"

section \<open>The regular expressions of the program\<close>

text \<open>
  The package \<^verbatim>\<open>regexp\<close> is Go's library, not code of the program. A compiled
  pattern is modelled by what it does at one position of a text: given the byte before
  the position (\<open>None\<close> at the beginning of the text) and the text from the position
  on, it yields the length of the leftmost-first match that starts there, with the spans of
  its capture groups relative to the start of the match, or \<open>None\<close>. The methods the
  program calls are derived from that. The filter of the user is an arbitrary value of
  this type; the nine patterns of the program are syntax trees run by a backtracking
  matcher, which prefers the left alternative and the longer repetition as Go does.
  Texts are matched byte by byte.
\<close>

type_synonym caps = "(nat \<times> nat \<times> nat) list"
type_synonym regexp = "char option \<Rightarrow> string \<Rightarrow> (nat \<times> caps) option"

datatype re =
    Eps
  | Chr char
  | Cls bool "(char \<times> char) list"
  | Bol
  | WordB
  | Cat re re
  | Alt re re
  | Star re
  | Cap nat re

type_synonym mstate = "nat \<times> char option \<times> string \<times> caps"

definition in_range :: "char \<Rightarrow> char \<times> char \<Rightarrow> bool" where
  "in_range c r = ((of_char (fst r) :: nat) \<le> of_char c \<and> (of_char c :: nat) \<le> of_char (snd r))"

definition in_class :: "bool \<Rightarrow> (char \<times> char) list \<Rightarrow> char \<Rightarrow> bool" where
  "in_class neg rs c = (neg \<noteq> list_ex (in_range c) rs)"

definition word_ranges :: "(char \<times> char) list" where
  "word_ranges = [(CHR ''0'', CHR ''9''), (CHR ''A'', CHR ''Z''), (CHR ''_'', CHR ''_''),
                  (CHR ''a'', CHR ''z'')]"

definition space_ranges :: "(char \<times> char) list" where
  "space_ranges = [(CHR 0x09, CHR 0x0A), (CHR 0x0C, CHR 0x0D), (CHR '' '', CHR '' '')]"

definition is_word :: "char option \<Rightarrow> bool" where
  "is_word p = (case p of None \<Rightarrow> False | Some c \<Rightarrow> in_class False word_ranges c)"

fun next_char :: "string \<Rightarrow> char option" where
  "next_char [] = None"
| "next_char (c # cs) = Some c"

text \<open>
  A repetition tries one more round before it tries to stop; a round that consumes
  nothing is not repeated. The first argument bounds the rounds by the length of the text.
\<close>

fun star :: "nat \<Rightarrow> (mstate \<Rightarrow> (mstate \<Rightarrow> mstate option) \<Rightarrow> mstate option)
    \<Rightarrow> mstate \<Rightarrow> (mstate \<Rightarrow> mstate option) \<Rightarrow> mstate option" where
  "star 0 f st k = k st"
| "star (Suc n) f st k =
     (case f st (\<lambda>st'. if fst st < fst st' then star n f st' k else None) of
        Some r \<Rightarrow> Some r
      | None \<Rightarrow> k st)"

primrec run_re :: "re \<Rightarrow> mstate \<Rightarrow> (mstate \<Rightarrow> mstate option) \<Rightarrow> mstate option" where
  "run_re Eps st k = k st"
| "run_re (Chr c) st k =
     (case st of (i, p, r, cs) \<Rightarrow>
        (case r of [] \<Rightarrow> None
         | x # xs \<Rightarrow> if x = c then k (Suc i, Some x, xs, cs) else None))"
| "run_re (Cls neg rs) st k =
     (case st of (i, p, r, cs) \<Rightarrow>
        (case r of [] \<Rightarrow> None
         | x # xs \<Rightarrow> if in_class neg rs x then k (Suc i, Some x, xs, cs) else None))"
| "run_re Bol st k = (case st of (i, p, r, cs) \<Rightarrow> if p = None then k st else None)"
| "run_re WordB st k =
     (case st of (i, p, r, cs) \<Rightarrow>
        if is_word p \<noteq> is_word (next_char r) then k st else None)"
| "run_re (Cat a b) st k = run_re a st (\<lambda>st'. run_re b st' k)"
| "run_re (Alt a b) st k =
     (case run_re a st k of Some x \<Rightarrow> Some x | None \<Rightarrow> run_re b st k)"
| "run_re (Star a) st k = star (Suc (length (fst (snd (snd st))))) (run_re a) st k"
| "run_re (Cap n a) st k =
     run_re a st (\<lambda>st'. case st' of (j, p, r, cs) \<Rightarrow> k (j, p, r, (n, fst st, j) # cs))"

definition MustCompile :: "re \<Rightarrow> regexp" where
  "MustCompile r p s =
     (case run_re r (0, p, s, []) Some of
        None \<Rightarrow> None
      | Some (n, _, _, cs) \<Rightarrow> Some (n, cs))"

subsection \<open>Pattern syntax\<close>

definition plus :: "re \<Rightarrow> re" where "plus r = Cat r (Star r)"
definition opt :: "re \<Rightarrow> re" where "opt r = Alt r Eps"

fun rep :: "nat \<Rightarrow> re \<Rightarrow> re" where
  "rep 0 r = Eps"
| "rep (Suc n) r = Cat r (rep n r)"

fun upto_rep :: "nat \<Rightarrow> re \<Rightarrow> re" where
  "upto_rep 0 r = Eps"
| "upto_rep (Suc n) r = opt (Cat r (upto_rep n r))"

fun seq :: "re list \<Rightarrow> re" where
  "seq [] = Eps"
| "seq [r] = r"
| "seq (r # rs) = Cat r (seq rs)"

fun alts :: "re list \<Rightarrow> re" where
  "alts [] = Eps"
| "alts [r] = r"
| "alts (r # rs) = Alt r (alts rs)"

definition digit :: re where "digit = Cls False [(CHR ''0'', CHR ''9'')]"
definition space :: re where "space = Cls False space_ranges"
definition nonspace :: re where "nonspace = Cls True space_ranges"
definition upper :: re where "upper = Cls False [(CHR ''A'', CHR ''Z'')]"
definition lower :: re where "lower = Cls False [(CHR ''a'', CHR ''z'')]"

text \<open>A literal word; under \<^verbatim>\<open>(?i)\<close> each letter stands for both of its cases.\<close>

definition lit :: "string \<Rightarrow> re" where
  "lit s = seq (map Chr s)"

definition to_upper :: "char \<Rightarrow> char" where
  "to_upper c = (if in_range c (CHR ''a'', CHR ''z'') then char_of (of_char c - (32::nat)) else c)"

definition to_lower :: "char \<Rightarrow> char" where
  "to_lower c = (if in_range c (CHR ''A'', CHR ''Z'') then char_of (of_char c + (32::nat)) else c)"

definition lit_i :: "string \<Rightarrow> re" where
  "lit_i s = seq (map (\<lambda>c. Cls False [(to_upper c, to_upper c), (to_lower c, to_lower c)]) s)"

text \<open>\<^verbatim>\<open>\d{2}:\d{2}:\d{2}\<close>, shared by both timestamp formats.\<close>

definition hms :: re where
  "hms = seq [rep 2 digit, Chr CHR '':'', rep 2 digit, Chr CHR '':'', rep 2 digit]"

text \<open>
  \<^verbatim>\<open>\b(?:\d{4}-\d{2}-\d{2}[T\s]\d{2}:\d{2}:\d{2}(?:\.\d+)?Z?|[A-Z][a-z]{2}\s+\d{1,2}\s+\d{2}:\d{2}:\d{2})\b\<close>
\<close>

definition reTS :: re where
  "reTS = seq [WordB,
     Alt (seq [rep 4 digit, Chr CHR ''-'', rep 2 digit, Chr CHR ''-'', rep 2 digit,
               Cls False ((CHR ''T'', CHR ''T'') # space_ranges), hms,
               opt (Cat (Chr CHR ''.'') (plus digit)), opt (Chr CHR ''Z'')])
         (seq [upper, rep 2 lower, plus space, digit, upto_rep 1 digit, plus space, hms]),
     WordB]"

text \<open>\<^verbatim>\<open>(?i)\b(debug|info|warn|warning|error|err|crit|fatal|fail)\b\<close>\<close>

definition reLvl :: re where
  "reLvl = seq [WordB,
     Cap 1 (alts (map lit_i [''debug'', ''info'', ''warn'', ''warning'', ''error'', ''err'',
                            ''crit'', ''fatal'', ''fail''])),
     WordB]"

text \<open>\<^verbatim>\<open>\bhttps?://[^\s]+\<close>\<close>

definition reURL :: re where
  "reURL = seq [WordB, lit ''http'', opt (Chr CHR ''s''), lit ''://'', plus nonspace]"

text \<open>\<^verbatim>\<open>\b(?:\d{1,3}\.){3}\d{1,3}\b\<close>\<close>

definition reIP :: re where
  "reIP = seq [WordB, rep 3 (seq [digit, upto_rep 2 digit, Chr CHR ''.'']),
               digit, upto_rep 2 digit, WordB]"

text \<open>\<^verbatim>\<open>(?:^|[\s"'])/[\w./\-\+@%~]+\<close>\<close>

definition rePath :: re where
  "rePath = seq [Alt Bol (Cls False ((DQUOTE, DQUOTE) # (SQUOTE, SQUOTE) # space_ranges)),
     Chr CHR ''/'',
     plus (Cls False (word_ranges @
       [(CHR ''.'', CHR ''.''), (CHR ''/'', CHR ''/''), (CHR ''-'', CHR ''-''),
        (CHR ''+'', CHR ''+''), (CHR ''@'', CHR ''@''), (CHR ''%'', CHR ''%''),
        (CHR ''~'', CHR ''~'')]))]"

text \<open>\<^verbatim>\<open>\b\d+\b\<close>\<close>

definition reNum :: re where
  "reNum = seq [WordB, plus digit, WordB]"

text \<open>\<^verbatim>\<open>^\s*[\{\[]\<close>\<close>

definition reJSONLine :: re where
  "reJSONLine = seq [Bol, Star space, Cls False [(CHR ''{'', CHR ''{''), (CHR ''['', CHR ''['')]]"

text \<open>\<^verbatim>\<open>"([^"\\]|\\.)*"\s*:\<close>; the dot matches every byte but the newline.\<close>

definition reJSONKey :: re where
  "reJSONKey = seq [Chr DQUOTE,
     Star (Cap 1 (Alt (Cls True [(DQUOTE, DQUOTE), (BACKSLASH, BACKSLASH)])
                      (Cat (Chr BACKSLASH) (Cls True [(NL, NL)])))),
     Chr DQUOTE, Star space, Chr CHR '':'']"

text \<open>\<^verbatim>\<open>^(\s*)([A-Za-z0-9_.-]+)\s*:\<close>\<close>

definition reYAMLKey :: re where
  "reYAMLKey = seq [Bol, Cap 1 (Star space),
     Cap 2 (plus (Cls False (word_ranges @ [(CHR ''.'', CHR ''.''), (CHR ''-'', CHR ''-'')]))),
     Star space, Chr CHR '':'']"

subsection \<open>The methods of a compiled pattern\<close>

text \<open>A match never extends beyond the text.\<close>

definition match_here :: "regexp \<Rightarrow> char option \<Rightarrow> string \<Rightarrow> (nat \<times> caps) option" where
  "match_here rx p s =
     (case rx p s of None \<Rightarrow> None | Some (n, cs) \<Rightarrow> Some (min n (length s), cs))"

text \<open>\<^verbatim>\<open>MatchString\<close>: is there a match at some position of the text?\<close>

fun match_from :: "regexp \<Rightarrow> char option \<Rightarrow> string \<Rightarrow> bool" where
  "match_from rx p [] = (match_here rx p [] \<noteq> None)"
| "match_from rx p (c # cs) = (match_here rx p (c # cs) \<noteq> None \<or> match_from rx (Some c) cs)"

definition MatchString :: "regexp \<Rightarrow> string \<Rightarrow> bool" where
  "MatchString rx s = match_from rx None s"

text \<open>
  \<^verbatim>\<open>FindAllStringIndex(s, -1)\<close>: the successive leftmost matches, as half-open
  spans. The search resumes at the end of a match; after an empty match it moves on by
  one byte, and an empty match right at the end of the match before is ignored. The
  arguments are the position, whether a match has just ended there, the byte before and
  the rest of the text.
\<close>

function find_all :: "regexp \<Rightarrow> nat \<Rightarrow> bool \<Rightarrow> char option \<Rightarrow> string \<Rightarrow> (nat \<times> nat) list" where
  "find_all rx i am p [] =
     (case match_here rx p [] of
        None \<Rightarrow> []
      | Some _ \<Rightarrow> if am then [] else [(i, i)])"
| "find_all rx i am p (c # cs) =
     (case match_here rx p (c # cs) of
        None \<Rightarrow> find_all rx (Suc i) False (Some c) cs
      | Some (n, _) \<Rightarrow>
          if n = 0 then (if am then [] else [(i, i)]) @ find_all rx (Suc i) False (Some c) cs
          else (i, i + n) # find_all rx (i + n) True (Some (last (take n (c # cs)))) (drop n (c # cs)))"
  by pat_completeness auto
termination
  by (relation "measure (\<lambda>(rx, i, am, p, s). length s)") auto

definition FindAllStringIndex :: "regexp \<Rightarrow> string \<Rightarrow> (nat \<times> nat) list" where
  "FindAllStringIndex rx s = find_all rx 0 False None s"

text \<open>
  \<^verbatim>\<open>ReplaceAllStringFunc\<close> and \<^verbatim>\<open>ReplaceAllString\<close> share one loop: each match is
  replaced by what \<open>repl\<close> makes of the matched text and its groups, the bytes between
  matches are copied.
\<close>

function replace_all :: "regexp \<Rightarrow> (string \<Rightarrow> caps \<Rightarrow> string) \<Rightarrow> bool \<Rightarrow> char option \<Rightarrow> string \<Rightarrow> string" where
  "replace_all rx repl am p [] =
     (case match_here rx p [] of
        None \<Rightarrow> []
      | Some (n, g) \<Rightarrow> if am then [] else repl [] g)"
| "replace_all rx repl am p (c # cs) =
     (case match_here rx p (c # cs) of
        None \<Rightarrow> c # replace_all rx repl False (Some c) cs
      | Some (n, g) \<Rightarrow>
          if n = 0 then (if am then [] else repl [] g) @ c # replace_all rx repl False (Some c) cs
          else repl (take n (c # cs)) g
               @ replace_all rx repl True (Some (last (take n (c # cs)))) (drop n (c # cs)))"
  by pat_completeness auto
termination
  by (relation "measure (\<lambda>(rx, repl, am, p, s). length s)") auto

definition ReplaceAllStringFunc :: "regexp \<Rightarrow> string \<Rightarrow> (string \<Rightarrow> string) \<Rightarrow> string" where
  "ReplaceAllStringFunc rx src f = replace_all rx (\<lambda>m g. f m) False None src"

text \<open>
  A replacement template, already split into its literal text and its group references
  \<^verbatim>\<open>$n\<close>; a group that took no part in the match expands to nothing.
\<close>

datatype tmpl = Text string | Group nat

fun group_span :: "caps \<Rightarrow> nat \<Rightarrow> (nat \<times> nat) option" where
  "group_span [] n = None"
| "group_span ((k, b, e) # g) n = (if k = n then Some (b, e) else group_span g n)"

fun expand :: "tmpl list \<Rightarrow> string \<Rightarrow> caps \<Rightarrow> string" where
  "expand [] m g = []"
| "expand (Text t # ts) m g = t @ expand ts m g"
| "expand (Group n # ts) m g =
     (case group_span g n of None \<Rightarrow> [] | Some (b, e) \<Rightarrow> slice m b e) @ expand ts m g"

definition ReplaceAllString :: "regexp \<Rightarrow> string \<Rightarrow> tmpl list \<Rightarrow> string" where
  "ReplaceAllString rx src t = replace_all rx (expand t) False None src"

section \<open>The renderer\<close>

subsection \<open>Library helpers\<close>

text \<open>\<^verbatim>\<open>strings.IndexByte\<close> and \<^verbatim>\<open>strings.LastIndexByte\<close>; \<open>None\<close> is Go's \<open>-1\<close>.\<close>

fun IndexByte :: "string \<Rightarrow> char \<Rightarrow> nat option" where
  "IndexByte [] c = None"
| "IndexByte (x # xs) c =
     (if x = c then Some 0 else (case IndexByte xs c of None \<Rightarrow> None | Some i \<Rightarrow> Some (Suc i)))"

fun LastIndexByte :: "string \<Rightarrow> char \<Rightarrow> nat option" where
  "LastIndexByte [] c = None"
| "LastIndexByte (x # xs) c =
     (case LastIndexByte xs c of
        Some i \<Rightarrow> Some (Suc i)
      | None \<Rightarrow> if x = c then Some 0 else None)"

definition ToUpper :: "string \<Rightarrow> string" where
  "ToUpper s = map to_upper s"

text \<open>
  \<^verbatim>\<open>strings.NewReplacer(old1, new1, ...).Replace\<close>: one pass over the text; at each
  position the first pair, in argument order, whose old string starts there is applied
  and the search goes on behind it; replaced text is not searched again.
\<close>

fun is_prefix :: "string \<Rightarrow> string \<Rightarrow> bool" where
  "is_prefix [] s = True"
| "is_prefix (x # xs) [] = False"
| "is_prefix (x # xs) (y # ys) = (x = y \<and> is_prefix xs ys)"

fun lookup_pair :: "(string \<times> string) list \<Rightarrow> string \<Rightarrow> (string \<times> string) option" where
  "lookup_pair [] s = None"
| "lookup_pair ((old, new) # ps) s =
     (if old \<noteq> [] \<and> is_prefix old s then Some (old, new) else lookup_pair ps s)"

function Replace :: "(string \<times> string) list \<Rightarrow> string \<Rightarrow> string" where
  "Replace ps [] = []"
| "Replace ps (c # cs) =
     (case lookup_pair ps (c # cs) of
        None \<Rightarrow> c # Replace ps cs
      | Some (old, new) \<Rightarrow> new @ Replace ps (drop (length old - 1) cs))"
  by pat_completeness auto
termination
  by (relation "measure (\<lambda>(ps, s). length s)") auto

subsection \<open>colorizeStructured\<close>

text \<open>The callback of the JSON-key pass: colour what lies between the outer quotes.\<close>

definition jsonKeyRepl :: "string \<Rightarrow> string" where
  "jsonKeyRepl s =
     (case IndexByte s DQUOTE of
        None \<Rightarrow> s
      | Some i \<Rightarrow>
          (case LastIndexByte s DQUOTE of
             None \<Rightarrow> s
           | Some j \<Rightarrow>
               if j \<le> i then s
               else slice s 0 (i + 1) @ ansiGreen @ slice s (i + 1) j @ ansiReset
                    @ slice s j (length s)))"

definition yamlKeyTemplate :: "tmpl list" where
  "yamlKeyTemplate = [Group 1, Text ansiBlue, Group 2, Text ansiReset, Text '':'']"

definition punctuation :: "(string \<times> string) list" where
  "punctuation =
     [(''{'', ansiDim @ ''{'' @ ansiReset),
      (''}'', ansiDim @ ''}'' @ ansiReset),
      (''['', ansiDim @ ''['' @ ansiReset),
      ('']'', ansiDim @ '']'' @ ansiReset),
      ('','', ansiDim @ '','' @ ansiReset),
      ('': '', ansiDim @ '': '' @ ansiReset)]"

definition colorizeStructured :: "string \<Rightarrow> bool \<Rightarrow> string" where
  "colorizeStructured seg enable =
     (if \<not> enable then seg
      else
        let seg1 = ReplaceAllStringFunc (MustCompile reJSONKey) seg jsonKeyRepl;
            seg2 = ReplaceAllString (MustCompile reYAMLKey) seg1 yamlKeyTemplate
        in Replace punctuation seg2)"

subsection \<open>colorizeGeneric\<close>

definition wrap :: "string \<Rightarrow> string \<Rightarrow> string" where
  "wrap colour s = colour @ s @ ansiReset"

definition levelRepl :: "string \<Rightarrow> string" where
  "levelRepl s =
     (let u = ToUpper s in
      if u = ''DEBUG'' then wrap ansiBlue s
      else if u = ''INFO'' then wrap ansiGreen s
      else if u = ''WARN'' \<or> u = ''WARNING'' then wrap ansiYellow s
      else if u = ''ERROR'' \<or> u = ''ERR'' \<or> u = ''CRIT'' \<or> u = ''FATAL'' \<or> u = ''FAIL''
        then wrap ansiRed s
      else s)"

definition colorizeGeneric :: "string \<Rightarrow> bool \<Rightarrow> string" where
  "colorizeGeneric seg enable =
     (if \<not> enable then seg
      else
        let seg0 = (if MatchString (MustCompile reJSONLine) seg \<or> MatchString (MustCompile reYAMLKey) seg
                    then colorizeStructured seg enable else seg);
            seg1 = ReplaceAllStringFunc (MustCompile reTS) seg0 (wrap ansiDim);
            seg2 = ReplaceAllStringFunc (MustCompile reURL) seg1 (wrap ansiMagenta);
            seg3 = ReplaceAllStringFunc (MustCompile reIP) seg2 (wrap ansiCyan);
            seg4 = ReplaceAllStringFunc (MustCompile rePath) seg3 (wrap ansiMagenta);
            seg5 = ReplaceAllStringFunc (MustCompile reLvl) seg4 levelRepl
        in ReplaceAllStringFunc (MustCompile reNum) seg5 (wrap ansiBold))"

subsection \<open>renderLine\<close>

text \<open>
  The loop over the match spans: \<open>out\<close> is the output so far, \<open>lastEnd\<close> (the variable
  \<^verbatim>\<open>last\<close>) the end of the span before.
\<close>

fun renderSpans :: "string \<Rightarrow> bool \<Rightarrow> (nat \<times> nat) list \<Rightarrow> nat \<Rightarrow> string \<Rightarrow> string" where
  "renderSpans raw enable [] lastEnd out =
     (if lastEnd < length raw then out @ colorizeGeneric (slice raw lastEnd (length raw)) enable
      else out)"
| "renderSpans raw enable ((s, e) # idxs) lastEnd out =
     renderSpans raw enable idxs e
       ((if s > lastEnd then out @ colorizeGeneric (slice raw lastEnd s) enable else out)
        @ ansiCyan @ slice raw s e @ ansiReset)"

definition renderLine :: "string \<Rightarrow> regexp option \<Rightarrow> bool \<Rightarrow> string" where
  "renderLine raw rx_opt enable =
     (case rx_opt of
        None \<Rightarrow> colorizeGeneric raw enable
      | Some rx \<Rightarrow>
          if \<not> enable then colorizeGeneric raw enable
          else
            let idxs = FindAllStringIndex rx raw in
            if idxs = [] then colorizeGeneric raw enable
            else renderSpans raw enable idxs 0 [])"

subsection \<open>The rendering in the words of the specification\<close>

text \<open>
  The line is split at the match spans into segments, alternately outside and inside a
  match; a segment outside is coloured generically, a segment inside is wrapped in the
  match colour as it is.
\<close>

datatype segment = Plain string | Match string

fun split_segments :: "string \<Rightarrow> nat \<Rightarrow> (nat \<times> nat) list \<Rightarrow> segment list" where
  "split_segments raw pos [] =
     (if pos < length raw then [Plain (slice raw pos (length raw))] else [])"
| "split_segments raw pos ((s, e) # spans) =
     (if pos < s then [Plain (slice raw pos s)] else [])
     @ Match (slice raw s e) # split_segments raw e spans"

fun text_of :: "segment \<Rightarrow> string" where
  "text_of (Plain t) = t"
| "text_of (Match t) = t"

fun render_segment :: "segment \<Rightarrow> string" where
  "render_segment (Plain t) = colorizeGeneric t True"
| "render_segment (Match t) = ansiCyan @ t @ ansiReset"

text \<open>Spans in order, none overlapping another, all within \<open>lo\<close> and \<open>hi\<close>.\<close>

fun spans_ok :: "nat \<Rightarrow> nat \<Rightarrow> (nat \<times> nat) list \<Rightarrow> bool" where
  "spans_ok lo hi [] = True"
| "spans_ok lo hi ((b, e) # spans) = (lo \<le> b \<and> b \<le> e \<and> e \<le> hi \<and> spans_ok e hi spans)"

text \<open>
  A text with colour codes inserted: the second string is the first with any number of
  the codes above put in, each at any place of what the insertions before have made.
\<close>

definition ansi_codes :: "string list" where
  "ansi_codes = [ansiReset, ansiDim, ansiBold, ansiRed, ansiGreen, ansiYellow, ansiBlue,
                 ansiMagenta, ansiCyan]"

inductive codes_inserted :: "string \<Rightarrow> string \<Rightarrow> bool" where
  same: "codes_inserted s s"
| ins: "codes_inserted s (u @ v) \<Longrightarrow> c \<in> set ansi_codes \<Longrightarrow> codes_inserted s (u @ c @ v)"

text \<open>One highlight pass: every match of the pattern is replaced by what \<open>f\<close> makes of it.\<close>

definition pass :: "re \<Rightarrow> (string \<Rightarrow> string) \<Rightarrow> string \<Rightarrow> string" where
  "pass r f s = ReplaceAllStringFunc (MustCompile r) s f"

section \<open>Selection: first N, last N, all\<close>

datatype error =
    OpenError      \<comment> \<open>\<^verbatim>\<open>os.Open\<close> failed\<close>
  | ErrTooLong     \<comment> \<open>\<^verbatim>\<open>bufio.Scanner\<close>: a line does not fit the buffer\<close>
  | Panic          \<comment> \<open>a run-time panic of Go\<close>

text \<open>
  \<^verbatim>\<open>bufio.Scanner\<close> with the default split function, given the buffer limit of the
  program. A line ends at a newline or at the end of the file, one carriage return at
  its end is dropped, and nothing follows the last newline unless bytes do. A line of
  \<open>maxLine\<close> bytes or more fills the buffer before its end is seen: the scan stops
  there with \<open>ErrTooLong\<close>. The first argument of \<open>scan\<close> is the line read so far.
\<close>

definition maxLine :: nat where "maxLine = 1024 * 1024"

definition dropCR :: "string \<Rightarrow> string" where
  "dropCR s = (if s \<noteq> [] \<and> last s = CR then butlast s else s)"

fun scan :: "string \<Rightarrow> string \<Rightarrow> string list \<times> error option" where
  "scan cur [] =
     (if cur = [] then ([], None)
      else if maxLine \<le> length cur then ([], Some ErrTooLong)
      else ([dropCR cur], None))"
| "scan cur (c # cs) =
     (if c = NL then
        (if maxLine \<le> length cur then ([], Some ErrTooLong)
         else (case scan [] cs of (ls, e) \<Rightarrow> (dropCR cur # ls, e)))
      else scan (cur @ [c]) cs)"

definition Scanner :: "string \<Rightarrow> string list \<times> error option" where
  "Scanner content = scan [] content"

text \<open>\<^verbatim>\<open>rx == nil || rx.MatchString(s)\<close>\<close>

definition selected :: "regexp option \<Rightarrow> string \<Rightarrow> bool" where
  "selected rx s = (case rx of None \<Rightarrow> True | Some r \<Rightarrow> MatchString r s)"

subsection \<open>printFirstNFiltered\<close>

text \<open>
  The loop over the scanned lines; the result says whether it left by \<^verbatim>\<open>break\<close>, in
  which case the scanner is not asked again and reports no error.
\<close>

fun firstLoop :: "regexp option \<Rightarrow> bool \<Rightarrow> int \<Rightarrow> string list \<Rightarrow> int \<Rightarrow> string list
    \<Rightarrow> string list \<times> int \<times> bool" where
  "firstLoop rx enableColor n [] count out = (out, count, False)"
| "firstLoop rx enableColor n (s # ss) count out =
     (if selected rx s then
        (if count + 1 \<ge> n then (out @ [renderLine s rx enableColor], count + 1, True)
         else firstLoop rx enableColor n ss (count + 1) (out @ [renderLine s rx enableColor]))
      else firstLoop rx enableColor n ss count out)"

definition printFirstNFiltered :: "string option \<Rightarrow> regexp option \<Rightarrow> int \<Rightarrow> bool
    \<Rightarrow> string list \<times> int \<times> error option" where
  "printFirstNFiltered file rx n enableColor =
     (case file of
        None \<Rightarrow> ([], 0, Some OpenError)
      | Some content \<Rightarrow>
          (case Scanner content of (ls, e) \<Rightarrow>
             (case firstLoop rx enableColor n ls 0 [] of (out, count, broke) \<Rightarrow>
                (out, count, if broke then None else e))))"

subsection \<open>printLastNFiltered\<close>

text \<open>
  The state of the scan loop is the ring, the write cursor \<open>idx\<close> and the number \<open>sz\<close> of valid entries (the variable \<^verbatim>\<open>size\<close>). A
  write outside the ring panics.
\<close>

fun lastLoop :: "regexp option \<Rightarrow> nat \<Rightarrow> string list \<Rightarrow> string list \<times> nat \<times> nat
    \<Rightarrow> error + string list \<times> nat \<times> nat" where
  "lastLoop rx n [] st = Inr st"
| "lastLoop rx n (s # ss) (ring, idx, sz) =
     (if selected rx s then
        (if idx < length ring
         then lastLoop rx n ss (ring[idx := s], (idx + 1) mod n, if sz < n then sz + 1 else sz)
         else Inl Panic)
      else lastLoop rx n ss (ring, idx, sz))"

definition printLastNFiltered :: "string option \<Rightarrow> regexp option \<Rightarrow> int \<Rightarrow> bool
    \<Rightarrow> string list \<times> int \<times> error option" where
  "printLastNFiltered file rx n enableColor =
     (case file of
        None \<Rightarrow> ([], 0, Some OpenError)
      | Some content \<Rightarrow>
          if n < 0 then ([], 0, Some Panic)
          else
            (case Scanner content of (ls, e) \<Rightarrow>
               (case lastLoop rx (nat n) ls (replicate (nat n) [], 0, 0) of
                  Inl err \<Rightarrow> ([], 0, Some err)
                | Inr (ring, idx, sz) \<Rightarrow>
                    (case e of
                       Some err \<Rightarrow> ([], 0, Some err)
                     | None \<Rightarrow>
                         let start = (if sz = nat n then idx else 0) in
                         (map (\<lambda>i. renderLine (ring ! ((start + i) mod nat n)) rx enableColor)
                              [0..<sz],
                          int sz, None)))))"

text \<open>
  The invariant of the ring while the matching lines \<open>ms\<close> have been written to it:
  the cursor and the count follow the number of writes, and each of the last \<open>n\<close>
  lines sits in the slot of its index modulo \<open>n\<close>.
\<close>

definition ring_inv :: "nat \<Rightarrow> string list \<Rightarrow> string list \<times> nat \<times> nat \<Rightarrow> bool" where
  "ring_inv n ms st =
     (case st of (ring, idx, sz) \<Rightarrow>
        length ring = n \<and> idx = length ms mod n \<and> sz = min (length ms) n \<and>
        (\<forall>k < length ms. length ms \<le> k + n \<longrightarrow> ring ! (k mod n) = ms ! k))"

subsection \<open>The initial phase of see, and the check of main before it\<close>

datatype fatal =
    ConflictingSelection   \<comment> \<open>"Use either -ns or -ne, not both"\<close>
  | CannotAccess           \<comment> \<open>"Cannot access file"\<close>
  | IsDirectory            \<comment> \<open>"Expected a file, but got a directory"\<close>
  | InvalidPattern         \<comment> \<open>"Invalid regex pattern"\<close>
  | CannotOpen             \<comment> \<open>"Error opening file"\<close>

datatype outcome =
    Fatal fatal            \<comment> \<open>\<^verbatim>\<open>log.Fatalf\<close>: the process exits\<close>
  | Stopped error          \<comment> \<open>the error is logged and see returns\<close>
  | Finished               \<comment> \<open>no tailing was asked for\<close>
  | Tailing nat            \<comment> \<open>tail mode is entered with this offset\<close>

datatype filter_arg = NoFilter | BadPattern | Pattern regexp

definition banner :: string where "banner = ''Reading existing lines...''"

text \<open>The variable \<^verbatim>\<open>rx\<close>: \<^verbatim>\<open>nil\<close> without a filter.\<close>

definition compiled :: "filter_arg \<Rightarrow> regexp option" where
  "compiled flt = (case flt of Pattern r \<Rightarrow> Some r | _ \<Rightarrow> None)"

text \<open>What is done with the offset once the initial phase has set it.\<close>

definition after_initial :: "bool \<Rightarrow> nat \<Rightarrow> outcome" where
  "after_initial tailPtr off = (if tailPtr then Tailing off else Finished)"

text \<open>
  \<open>file\<close> is what \<^verbatim>\<open>os.Open\<close> gives (the content, or \<open>None\<close> for an error) and
  \<open>stat\<close> the size that \<^verbatim>\<open>os.Stat\<close> reports. After a complete scan the position of
  the descriptor is the length of the content.
\<close>

definition see :: "filter_arg \<Rightarrow> string option \<Rightarrow> nat option \<Rightarrow> bool \<Rightarrow> bool \<Rightarrow> int \<Rightarrow> int
    \<Rightarrow> string list \<times> outcome" where
  "see flt file stat tailPtr enableColor ns ne =
     (case flt of
        BadPattern \<Rightarrow> ([], Fatal InvalidPattern)
      | _ \<Rightarrow>
         let rx = compiled flt in
         if ns > 0 \<and> ne > 0 then ([], Fatal ConflictingSelection)
         else if ns > 0 then
           (case printFirstNFiltered file rx ns enableColor of
              (out, _, Some err) \<Rightarrow> (out, Stopped err)
            | (out, _, None) \<Rightarrow>
                (out, after_initial tailPtr (case stat of Some sz \<Rightarrow> sz | None \<Rightarrow> 0)))
         else if ne > 0 then
           (case printLastNFiltered file rx ne enableColor of
              (out, _, Some err) \<Rightarrow> (out, Stopped err)
            | (out, _, None) \<Rightarrow>
                (out, after_initial tailPtr (case stat of Some sz \<Rightarrow> sz | None \<Rightarrow> 0)))
         else
           (case file of
              None \<Rightarrow> ([], Fatal CannotOpen)
            | Some content \<Rightarrow>
                (case Scanner content of (ls, e) \<Rightarrow>
                   let out = banner # map (\<lambda>l. renderLine l rx enableColor) (filter (selected rx) ls) in
                   (case e of
                      Some err \<Rightarrow> (out, Stopped err)
                    | None \<Rightarrow> (out, after_initial tailPtr (length content))))))"

datatype entry = Missing | Directory | Regular string

definition main :: "filter_arg \<Rightarrow> entry \<Rightarrow> bool \<Rightarrow> bool \<Rightarrow> int \<Rightarrow> int \<Rightarrow> string list \<times> outcome" where
  "main flt path tailPtr enableColor ns ne =
     (if ns > 0 \<and> ne > 0 then ([], Fatal ConflictingSelection)
      else
        (case path of
           Missing \<Rightarrow> ([], Fatal CannotAccess)
         | Directory \<Rightarrow> ([], Fatal IsDirectory)
         | Regular content \<Rightarrow>
             see flt (Some content) (Some (length content)) tailPtr enableColor ns ne))"

section \<open>The follow engine: the drain step readNew\<close>

text \<open>
  The file as one drain finds it: its bytes, and possibly a position from which the
  device fails to read. \<^verbatim>\<open>ReadAt\<close> returns the bytes it could read and an error unless
  it read all that was asked for: \<open>EOF\<close> at the end of the file, \<open>EIO\<close> at the fault.
\<close>

record osfile =
  bytes :: string
  fault :: "nat option"

datatype rerr = EOF | EIO

definition readable :: "osfile \<Rightarrow> string" where
  "readable f = (case fault f of None \<Rightarrow> bytes f | Some p \<Rightarrow> take p (bytes f))"

definition ReadAt :: "osfile \<Rightarrow> nat \<Rightarrow> nat \<Rightarrow> string \<times> rerr option" where
  "ReadAt f want start =
     (let data = take want (drop start (readable f)) in
      (data,
       if length data = want then None
       else if length (readable f) < length (bytes f) then Some EIO
       else Some EOF))"

text \<open>
  What a drain sees of the outside: the size \<^verbatim>\<open>os.Stat\<close> reports and the file
  \<^verbatim>\<open>os.Open\<close> gives, each \<open>None\<close> when the call fails. The two calls are separate, so
  the size need not be the length of the file that is opened.
\<close>

record env =
  Stat :: "nat option"
  Open :: "osfile option"

text \<open>The variables \<^verbatim>\<open>offset\<close> and \<^verbatim>\<open>carry\<close> that readNew closes over.\<close>

record follow =
  offset :: nat
  carry :: string

definition chunk :: nat where "chunk = 64 * 1024"

lemma IndexByte_lt_length: "IndexByte s c = Some i \<Longrightarrow> i < length s"
  by (induction s arbitrary: i) (auto split: if_splits option.splits)

text \<open>The inner loop: emit every complete line of \<open>carry\<close> and keep the rest.\<close>

function emitLines :: "regexp option \<Rightarrow> bool \<Rightarrow> string \<Rightarrow> string list \<Rightarrow> string \<times> string list" where
  "emitLines rx enableColor buf out =
     (case IndexByte buf NL of
        None \<Rightarrow> (buf, out)
      | Some nl \<Rightarrow>
          emitLines rx enableColor (drop (nl + 1) buf)
            (if selected rx (slice buf 0 nl) then out @ [renderLine (slice buf 0 nl) rx enableColor]
             else out))"
  by pat_completeness auto
termination
  by (relation "measure (\<lambda>(rx, enableColor, buf, out). length buf)")
     (auto dest: IndexByte_lt_length)

declare emitLines.simps [simp del]

text \<open>
  One round of the read loop after \<^verbatim>\<open>ReadAt\<close> has returned \<open>data\<close>: if it is
  not empty it is appended to the carry and the complete lines are emitted.
\<close>

definition absorb :: "regexp option \<Rightarrow> bool \<Rightarrow> string \<Rightarrow> string list \<Rightarrow> string
    \<Rightarrow> string \<times> string list" where
  "absorb rx enableColor buf out data =
     (if 0 < length data then emitLines rx enableColor (buf @ data) out else (buf, out))"

text \<open>
  The loop \<^verbatim>\<open>for start < cur\<close>. With a read that returns no byte and no error other
  than \<open>EOF\<close> the loop goes round unchanged, so it need not end: the result is \<open>None\<close>
  when it does not.
\<close>

partial_function (option) readLoop :: "regexp option \<Rightarrow> bool \<Rightarrow> osfile \<Rightarrow> nat \<Rightarrow> nat \<Rightarrow> string
    \<Rightarrow> string list \<Rightarrow> (string \<times> string list) option" where
  "readLoop rx enableColor f cur start buf out =
     (if start < cur then
        (let r = ReadAt f (min (cur - start) chunk) start;
             b = absorb rx enableColor buf out (fst r)
         in if snd r = Some EIO then Some b
            else readLoop rx enableColor f cur (start + length (fst r)) (fst b) (snd b))
      else Some (buf, out))"

declare readLoop.simps [code]

definition readNew :: "regexp option \<Rightarrow> bool \<Rightarrow> env \<Rightarrow> follow \<Rightarrow> (string list \<times> follow) option" where
  "readNew rx enableColor e st =
     (case Stat e of
        None \<Rightarrow> Some ([], st)
      | Some cur \<Rightarrow>
          let st1 = (if cur < offset st then st\<lparr>offset := 0, carry := []\<rparr> else st) in
          if cur = offset st1 then Some ([], st1)
          else
            (case Open e of
               None \<Rightarrow> Some ([], st1)
             | Some f \<Rightarrow>
                 (case readLoop rx enableColor f cur (offset st1) (carry st1) [] of
                    None \<Rightarrow> None
                  | Some (buf, out) \<Rightarrow> Some (out, \<lparr>offset = cur, carry = buf\<rparr>))))"

text \<open>
  A drain that finds the file in order: the size reported is the length of the content
  and no read fails.
\<close>

definition healthy :: "string \<Rightarrow> env" where
  "healthy content = \<lparr>Stat = Some (length content), Open = Some \<lparr>bytes = content, fault = None\<rparr>\<rparr>"

text \<open>
  Successive drains while the file grows: the file holds \<open>base\<close>, then each chunk is
  appended and a drain follows. The outputs are concatenated.
\<close>

fun drains :: "regexp option \<Rightarrow> bool \<Rightarrow> string \<Rightarrow> string list \<Rightarrow> follow
    \<Rightarrow> (string list \<times> follow) option" where
  "drains rx enableColor base [] st = Some ([], st)"
| "drains rx enableColor base (b # bs) st =
     (case readNew rx enableColor (healthy (base @ b)) st of
        None \<Rightarrow> None
      | Some (out, st') \<Rightarrow>
          (case drains rx enableColor (base @ b) bs st' of
             None \<Rightarrow> None
           | Some (out', st'') \<Rightarrow> Some (out @ out', st'')))"

section \<open>Properties of the last-N ring\<close>

lemma mod_neq_between:
  fixes k m n :: nat
  assumes "k < m" "m < k + n"
  shows "k mod n \<noteq> m mod n"
proof
  assume "k mod n = m mod n"
  then have "n dvd (m - k)"
    using assms(1) by (metis mod_eq_dvd_iff_nat less_imp_le_nat)
  moreover have "0 < m - k" "m - k < n" using assms by auto
  ultimately show False by (auto dest: dvd_imp_le)
qed

lemma ring_inv_init: "ring_inv n [] (replicate n [], 0, 0)"
  by (simp add: ring_inv_def)

lemma ring_inv_step:
  assumes n: "0 < n" and inv: "ring_inv n ms (ring, idx, sz)"
  shows "idx < length ring"
    and "ring_inv n (ms @ [s]) (ring[idx := s], (idx + 1) mod n, if sz < n then sz + 1 else sz)"
proof -
  from inv have len: "length ring = n" and idx: "idx = length ms mod n"
    and sz: "sz = min (length ms) n"
    and slots: "\<And>k. k < length ms \<Longrightarrow> length ms \<le> k + n \<Longrightarrow> ring ! (k mod n) = ms ! k"
    by (auto simp: ring_inv_def)
  show lt: "idx < length ring" using n len idx by simp
  have "(idx + 1) mod n = length (ms @ [s]) mod n"
    using idx by (simp add: mod_Suc_eq)
  moreover have "(if sz < n then sz + 1 else sz) = min (length (ms @ [s])) n"
    using sz by auto
  moreover have "(ring[idx := s]) ! (k mod n) = (ms @ [s]) ! k"
    if k: "k < length (ms @ [s])" and near: "length (ms @ [s]) \<le> k + n" for k
  proof (cases "k = length ms")
    case True
    then show ?thesis using lt idx by simp
  next
    case False
    with k have k': "k < length ms" by simp
    moreover from near have "length ms < k + n" by simp
    ultimately have "k mod n \<noteq> idx" unfolding idx by (rule mod_neq_between)
    then show ?thesis using slots[of k] k' near by (simp add: nth_append)
  qed
  ultimately show "ring_inv n (ms @ [s]) (ring[idx := s], (idx + 1) mod n, if sz < n then sz + 1 else sz)"
    using len unfolding ring_inv_def by simp
qed

lemma lastLoop_inv:
  assumes "0 < n" "ring_inv n ms st"
  shows "\<exists>st'. lastLoop rx n ls st = Inr st' \<and> ring_inv n (ms @ filter (selected rx) ls) st'"
  using assms(2)
proof (induction ls arbitrary: ms st)
  case Nil
  then show ?case by simp
next
  case (Cons s ss)
  obtain ring idx sz where st: "st = (ring, idx, sz)" by (cases st)
  show ?case
  proof (cases "selected rx s")
    case True
    have lt: "idx < length ring"
      by (rule ring_inv_step(1)[OF assms(1) Cons.prems[unfolded st]])
    have inv': "ring_inv n (ms @ [s]) (ring[idx := s], (idx + 1) mod n, if sz < n then sz + 1 else sz)"
      by (rule ring_inv_step(2)[OF assms(1) Cons.prems[unfolded st]])
    from Cons.IH[OF inv'] show ?thesis using True lt st by simp
  next
    case False
    with Cons.IH[OF Cons.prems] show ?thesis using st by simp
  qed
qed

lemma ring_read:
  assumes n: "0 < n" and inv: "ring_inv n ms (ring, idx, sz)"
  shows "map (\<lambda>i. ring ! (((if sz = n then idx else 0) + i) mod n)) [0..<sz] = drop (length ms - sz) ms"
proof (rule nth_equalityI)
  from inv have idx: "idx = length ms mod n" and sz: "sz = min (length ms) n"
    and slots: "\<And>k. k < length ms \<Longrightarrow> length ms \<le> k + n \<Longrightarrow> ring ! (k mod n) = ms ! k"
    by (auto simp: ring_inv_def)
  show "length (map (\<lambda>i. ring ! (((if sz = n then idx else 0) + i) mod n)) [0..<sz]) = length (drop (length ms - sz) ms)"
    using sz by simp
  fix i assume "i < length (map (\<lambda>i. ring ! (((if sz = n then idx else 0) + i) mod n)) [0..<sz])"
  then have i: "i < sz" by simp
  let ?k = "length ms - sz + i"
  have k: "?k < length ms" "length ms \<le> ?k + n" using i sz by auto
  have "((if sz = n then idx else 0) + i) mod n = ?k mod n"
  proof (cases "sz = n")
    case True
    then have "n \<le> length ms" using sz by simp
    then have "?k + n = length ms + i" using True by simp
    then have "?k mod n = (length ms + i) mod n" by (metis mod_add_self2)
    then show ?thesis using True idx by (simp add: mod_add_left_eq)
  next
    case False
    then have "sz = length ms" using sz by simp
    then show ?thesis using False by simp
  qed
  then show "map (\<lambda>i. ring ! (((if sz = n then idx else 0) + i) mod n)) [0..<sz] ! i = drop (length ms - sz) ms ! i"
    using i slots[OF k] sz by simp
qed

lemma drop_min: "drop (length ms - min (length ms) n) ms = drop (length ms - n) ms"
  by (cases "length ms \<le> n") (simp_all add: min_def)

lemma int_min_nat: "1 \<le> n \<Longrightarrow> int (min m (nat n)) = min (int m) n"
  by (cases "m \<le> nat n") (auto simp: min_def)

lemma printLastNFiltered_ok:
  assumes n: "1 \<le> n" and sc: "Scanner content = (ls, None)"
  shows "printLastNFiltered (Some content) rx n enableColor =
           (map (\<lambda>l. renderLine l rx enableColor)
                (drop (length (filter (selected rx) ls) - nat n) (filter (selected rx) ls)),
            min (int (length (filter (selected rx) ls))) n, None)"
proof -
  let ?ms = "filter (selected rx) ls"
  from n have n': "0 < nat n" by simp
  from lastLoop_inv[OF n' ring_inv_init, of rx ls]
  obtain ring idx sz where run: "lastLoop rx (nat n) ls (replicate (nat n) [], 0, 0) = Inr (ring, idx, sz)"
    and inv: "ring_inv (nat n) ?ms (ring, idx, sz)"
    by auto
  from inv have sz: "sz = min (length ?ms) (nat n)"
    by (simp add: ring_inv_def)
  have "map (\<lambda>i. renderLine (ring ! (((if sz = nat n then idx else 0) + i) mod nat n)) rx enableColor) [0..<sz]
        = map (\<lambda>l. renderLine l rx enableColor)
              (map (\<lambda>i. ring ! (((if sz = nat n then idx else 0) + i) mod nat n)) [0..<sz])"
    by (simp add: comp_def)
  also have "\<dots> = map (\<lambda>l. renderLine l rx enableColor) (drop (length ?ms - nat n) ?ms)"
    using ring_read[OF n' inv] sz drop_min[of ?ms "nat n"] by simp
  finally have out: "map (\<lambda>i. renderLine (ring ! (((if sz = nat n then idx else 0) + i) mod nat n)) rx enableColor) [0..<sz]
        = map (\<lambda>l. renderLine l rx enableColor) (drop (length ?ms - nat n) ?ms)" .
  have cnt: "int sz = min (int (length ?ms)) n" unfolding sz using n by (rule int_min_nat)
  show ?thesis
    unfolding printLastNFiltered_def using n sc run out cnt
    by (simp add: Let_def)
qed

lemma printLastNFiltered_err:
  assumes n: "1 \<le> n" and sc: "Scanner content = (ls, Some err)"
  shows "printLastNFiltered (Some content) rx n enableColor = ([], 0, Some err)"
proof -
  from n have n': "0 < nat n" by simp
  from lastLoop_inv[OF n' ring_inv_init, of rx ls]
  obtain st where run: "lastLoop rx (nat n) ls (replicate (nat n) [], 0, 0) = Inr st"
    by auto
  show ?thesis
    unfolding printLastNFiltered_def using n sc run
    by (cases st) (simp add: Let_def)
qed

text \<open>
  C7. For every sequence of lines, every filter and every capacity \<open>n \<ge> 1\<close>: when the
  ring has absorbed all matching lines, its count is the minimum of the number of matches
  and \<open>n\<close>, and reading it from the oldest entry to the newest (from slot 0 while the ring
  is not full, from the write cursor once it is) gives exactly the last count matching
  lines in their original order, however often the cursor has wrapped around.
\<close>

theorem C7_ring_yields_last_matches:
  assumes "0 < n"
  shows "\<exists>ring idx sz.
           lastLoop rx n ls (replicate n [], 0, 0) = Inr (ring, idx, sz) \<and>
           sz = min (length (filter (selected rx) ls)) n \<and>
           map (\<lambda>i. ring ! (((if sz = n then idx else 0) + i) mod n)) [0..<sz]
             = drop (length (filter (selected rx) ls) - sz) (filter (selected rx) ls)"
proof -
  from lastLoop_inv[OF assms ring_inv_init, of rx ls]
  obtain ring idx sz where run: "lastLoop rx n ls (replicate n [], 0, 0) = Inr (ring, idx, sz)"
    and inv: "ring_inv n (filter (selected rx) ls) (ring, idx, sz)"
    by auto
  from inv have "sz = min (length (filter (selected rx) ls)) n"
    by (simp add: ring_inv_def)
  with run ring_read[OF assms inv] show ?thesis by blast
qed

theorem C7_ring_witness:
  "0 < (2::nat) \<and>
   (\<exists>ring idx sz.
      lastLoop None 2 [''l1'', ''l2'', ''l3'', ''l4'', ''l5''] (replicate 2 [], 0, 0) = Inr (ring, idx, sz) \<and>
      sz = 2 \<and> idx = 1 \<and>
      map (\<lambda>i. ring ! (((if sz = 2 then idx else 0) + i) mod 2)) [0..<sz] = [''l4'', ''l5''])"
  using C7_ring_yields_last_matches[of 2 None "[''l1'', ''l2'', ''l3'', ''l4'', ''l5'']"]
  by (simp add: selected_def numeral_2_eq_2)

lemma renderLine_plain: "renderLine l rx False = l"
  by (simp add: renderLine_def colorizeGeneric_def split: option.splits)

text \<open>
  C2, as the code has it. For every file that scans without error, every filter and every
  \<open>n \<ge> 1\<close>, printLastNFiltered goes through every line, prints the last \<open>n\<close> matching
  lines (all of them when there are fewer) in their order, and returns the number of lines
  it printed, the minimum of the number of matches and \<open>n\<close>; when the scan fails it
  prints nothing and returns the error. On five lines of which exactly the second and the
  fourth match, with \<open>n = 1\<close>, it prints the fourth line and returns 1.
\<close>

theorem C2_lastN_emits_last_and_counts_emitted:
  "(1 \<le> n \<and> Scanner content = (ls, None) \<longrightarrow>
      printLastNFiltered (Some content) rx n enableColor =
        (map (\<lambda>l. renderLine l rx enableColor)
             (drop (length (filter (selected rx) ls) - nat n) (filter (selected rx) ls)),
         min (int (length (filter (selected rx) ls))) n, None))
   \<and> (1 \<le> n \<and> Scanner content = (ls, Some err) \<longrightarrow>
      printLastNFiltered (Some content) rx n enableColor = ([], 0, Some err))
   \<and> (Scanner content = ([l1, l2, l3, l4, l5], None) \<and>
      \<not> selected rx l1 \<and> selected rx l2 \<and> \<not> selected rx l3 \<and> selected rx l4 \<and> \<not> selected rx l5 \<longrightarrow>
      printLastNFiltered (Some content) rx 1 enableColor = ([renderLine l4 rx enableColor], 1, None))"
proof (intro conjI impI)
  assume "1 \<le> n \<and> Scanner content = (ls, None)"
  then show "printLastNFiltered (Some content) rx n enableColor =
        (map (\<lambda>l. renderLine l rx enableColor)
             (drop (length (filter (selected rx) ls) - nat n) (filter (selected rx) ls)),
         min (int (length (filter (selected rx) ls))) n, None)"
    using printLastNFiltered_ok by blast
next
  assume "1 \<le> n \<and> Scanner content = (ls, Some err)"
  then show "printLastNFiltered (Some content) rx n enableColor = ([], 0, Some err)"
    using printLastNFiltered_err by blast
next
  assume a: "Scanner content = ([l1, l2, l3, l4, l5], None) \<and>
      \<not> selected rx l1 \<and> selected rx l2 \<and> \<not> selected rx l3 \<and> selected rx l4 \<and> \<not> selected rx l5"
  have "(1::int) \<le> 1" by simp
  from printLastNFiltered_ok[OF this conjunct1[OF a], of rx enableColor] a
  show "printLastNFiltered (Some content) rx 1 enableColor = ([renderLine l4 rx enableColor], 1, None)"
    by simp
qed

theorem C2_lastN_witness:
  "Scanner ''a1\<newline>b2\<newline>a3\<newline>b4\<newline>a5\<newline>'' = ([''a1'', ''b2'', ''a3'', ''b4'', ''a5''], None)
   \<and> \<not> selected (Some (MustCompile (lit ''b''))) ''a1''
   \<and> selected (Some (MustCompile (lit ''b''))) ''b2''
   \<and> \<not> selected (Some (MustCompile (lit ''b''))) ''a3''
   \<and> selected (Some (MustCompile (lit ''b''))) ''b4''
   \<and> \<not> selected (Some (MustCompile (lit ''b''))) ''a5''
   \<and> printLastNFiltered (Some ''a1\<newline>b2\<newline>a3\<newline>b4\<newline>a5\<newline>'') (Some (MustCompile (lit ''b''))) 1 True
       = ([renderLine ''b4'' (Some (MustCompile (lit ''b''))) True], 1, None)"
proof -
  have sc: "Scanner ''a1\<newline>b2\<newline>a3\<newline>b4\<newline>a5\<newline>'' = ([''a1'', ''b2'', ''a3'', ''b4'', ''a5''], None)"
    by (simp add: Scanner_def maxLine_def dropCR_def NL_def CR_def)
  have sel: "\<not> selected (Some (MustCompile (lit ''b''))) ''a1''
   \<and> selected (Some (MustCompile (lit ''b''))) ''b2''
   \<and> \<not> selected (Some (MustCompile (lit ''b''))) ''a3''
   \<and> selected (Some (MustCompile (lit ''b''))) ''b4''
   \<and> \<not> selected (Some (MustCompile (lit ''b''))) ''a5''"
    by code_simp
  from C2_lastN_emits_last_and_counts_emitted[of 1 "''a1\<newline>b2\<newline>a3\<newline>b4\<newline>a5\<newline>''"
      "[''a1'', ''b2'', ''a3'', ''b4'', ''a5'']" "Some (MustCompile (lit ''b''))" True _ "''a1''" "''b2''" "''a3''" "''b4''" "''a5''"]
    sc sel
  show ?thesis by blast
qed

text \<open>
  The count that C2 states, the number of all matching lines, is not what is returned:
  on that file two lines match and the result is 1.
\<close>

theorem C2_count_counterexample:
  "printLastNFiltered (Some ''a1\<newline>b2\<newline>a3\<newline>b4\<newline>a5\<newline>'') (Some (MustCompile (lit ''b''))) 1 False
     = ([''b4''], 1, None)
   \<and> Scanner ''a1\<newline>b2\<newline>a3\<newline>b4\<newline>a5\<newline>'' = ([''a1'', ''b2'', ''a3'', ''b4'', ''a5''], None)
   \<and> filter (selected (Some (MustCompile (lit ''b'')))) [''a1'', ''b2'', ''a3'', ''b4'', ''a5'']
     = [''b2'', ''b4'']"
proof -
  have sc: "Scanner ''a1\<newline>b2\<newline>a3\<newline>b4\<newline>a5\<newline>'' = ([''a1'', ''b2'', ''a3'', ''b4'', ''a5''], None)"
    by (simp add: Scanner_def maxLine_def dropCR_def NL_def CR_def)
  have sel: "filter (selected (Some (MustCompile (lit ''b'')))) [''a1'', ''b2'', ''a3'', ''b4'', ''a5'']
     = [''b2'', ''b4'']"
    by code_simp
  have "(1::int) \<le> 1" by simp
  from printLastNFiltered_ok[OF this sc, of "Some (MustCompile (lit ''b''))" False]
  show ?thesis using sc sel by (simp add: renderLine_plain)
qed

section \<open>Properties of the selection switch\<close>

lemma see_nonpositive_ns: "ns \<le> 0 \<Longrightarrow> see flt file stat t c ns ne = see flt file stat t c 0 ne"
  by (cases flt) (simp_all add: see_def Let_def)

lemma see_nonpositive_ne: "ne \<le> 0 \<Longrightarrow> see flt file stat t c ns ne = see flt file stat t c ns 0"
  by (cases flt) (simp_all add: see_def Let_def)

lemma see_conflict:
  "snd (see flt file stat t c ns ne) = Fatal ConflictingSelection \<longleftrightarrow> flt \<noteq> BadPattern \<and> 0 < ns \<and> 0 < ne"
  by (auto simp: see_def Let_def after_initial_def split: filter_arg.splits prod.splits option.splits)

lemma sc_ab: "Scanner ''a1\<newline>b2'' = ([''a1'', ''b2''], None)"
  by (simp add: Scanner_def maxLine_def dropCR_def NL_def CR_def)

text \<open>
  C10. A count \<open>ns\<close> or \<open>ne\<close> that is zero or negative has the effect of the default 0,
  in main and in see alike: the run is the same as with that count set to 0. The
  conflict of selections is reported exactly when both counts are strictly positive. With
  both counts non-positive the default path runs, which prints the banner and every
  matching line; with \<open>ns = -3\<close> and \<open>ne = 5\<close> the run is accepted and is the last-N
  selection with \<open>n = 5\<close>.
\<close>

theorem C10_nonpositive_counts_are_ignored:
  "(ns \<le> 0 \<longrightarrow> main flt path t c ns ne = main flt path t c 0 ne
               \<and> see flt opened stat t c ns ne = see flt opened stat t c 0 ne)
   \<and> (ne \<le> 0 \<longrightarrow> main flt path t c ns ne = main flt path t c ns 0
               \<and> see flt opened stat t c ns ne = see flt opened stat t c ns 0)
   \<and> (snd (main flt path t c ns ne) = Fatal ConflictingSelection \<longleftrightarrow> 0 < ns \<and> 0 < ne)
   \<and> (ns \<le> 0 \<and> ne \<le> 0 \<and> flt \<noteq> BadPattern \<longrightarrow>
        main flt (Regular content) t c ns ne =
          (banner # map (\<lambda>l. renderLine l (compiled flt) c)
                        (filter (selected (compiled flt)) (fst (Scanner content))),
           case snd (Scanner content) of
             Some err \<Rightarrow> Stopped err
           | None \<Rightarrow> after_initial t (length content)))
   \<and> (flt \<noteq> BadPattern \<longrightarrow>
        main flt (Regular content) t c (- 3) 5 =
          (case printLastNFiltered (Some content) (compiled flt) 5 c of
             (out, _, Some err) \<Rightarrow> (out, Stopped err)
           | (out, _, None) \<Rightarrow> (out, after_initial t (length content))))"
proof (intro conjI impI)
  assume "ns \<le> 0"
  then show "main flt path t c ns ne = main flt path t c 0 ne"
    by (simp add: main_def see_nonpositive_ns[of ns] split: entry.splits)
next
  assume "ns \<le> 0"
  then show "see flt opened stat t c ns ne = see flt opened stat t c 0 ne"
    by (rule see_nonpositive_ns)
next
  assume "ne \<le> 0"
  then show "main flt path t c ns ne = main flt path t c ns 0"
    by (simp add: main_def see_nonpositive_ne[of ne] split: entry.splits)
next
  assume "ne \<le> 0"
  then show "see flt opened stat t c ns ne = see flt opened stat t c ns 0"
    by (rule see_nonpositive_ne)
next
  show "snd (main flt path t c ns ne) = Fatal ConflictingSelection \<longleftrightarrow> 0 < ns \<and> 0 < ne"
    by (auto simp: main_def see_conflict split: entry.splits)
next
  assume "ns \<le> 0 \<and> ne \<le> 0 \<and> flt \<noteq> BadPattern"
  then show "main flt (Regular content) t c ns ne =
          (banner # map (\<lambda>l. renderLine l (compiled flt) c)
                        (filter (selected (compiled flt)) (fst (Scanner content))),
           case snd (Scanner content) of
             Some err \<Rightarrow> Stopped err
           | None \<Rightarrow> after_initial t (length content))"
    by (cases flt) (auto simp: main_def see_def Let_def split: prod.splits option.splits)
next
  assume "flt \<noteq> BadPattern"
  then show "main flt (Regular content) t c (- 3) 5 =
          (case printLastNFiltered (Some content) (compiled flt) 5 c of
             (out, _, Some err) \<Rightarrow> (out, Stopped err)
           | (out, _, None) \<Rightarrow> (out, after_initial t (length content)))"
    by (cases flt) (auto simp: main_def see_def Let_def split: prod.splits option.splits)
qed

theorem C10_witness:
  "(- 3 :: int) \<le> 0 \<and> (0 :: int) \<le> 0 \<and> NoFilter \<noteq> BadPattern
   \<and> main NoFilter (Regular ''a1\<newline>b2'') True False (- 3) 5
       = ([''a1'', ''b2''], Tailing (length ''a1\<newline>b2''))
   \<and> main NoFilter (Regular ''a1\<newline>b2'') True False (- 3) 0
       = ([banner, ''a1'', ''b2''], Tailing (length ''a1\<newline>b2''))
   \<and> main NoFilter (Regular ''a1\<newline>b2'') True False (- 3) 5
       = main NoFilter (Regular ''a1\<newline>b2'') True False 0 5"
proof -
  have last5: "printLastNFiltered (Some ''a1\<newline>b2'') None 5 False = ([''a1'', ''b2''], 2, None)"
    using printLastNFiltered_ok[OF _ sc_ab, of 5 None False]
    by (simp add: selected_def renderLine_plain)
  note inst = C10_nonpositive_counts_are_ignored[where flt = NoFilter
      and path = "Regular ''a1\<newline>b2''" and content = "''a1\<newline>b2''" and t = True and c = False
      and opened = "Some ''a1\<newline>b2''" and stat = "Some 5" and ns = "- 3"]
  have a: "main NoFilter (Regular ''a1\<newline>b2'') True False (- 3) 5
       = ([''a1'', ''b2''], Tailing (length ''a1\<newline>b2''))"
  proof -
    from inst[where ne = 5]
    have "main NoFilter (Regular ''a1\<newline>b2'') True False (- 3) 5 =
          (case printLastNFiltered (Some ''a1\<newline>b2'') (compiled NoFilter) 5 False of
             (out, _, Some err) \<Rightarrow> (out, Stopped err)
           | (out, _, None) \<Rightarrow> (out, after_initial True (length ''a1\<newline>b2'')))"
      by blast
    with last5 show ?thesis by (simp add: compiled_def after_initial_def)
  qed
  have b: "main NoFilter (Regular ''a1\<newline>b2'') True False (- 3) 0
       = ([banner, ''a1'', ''b2''], Tailing (length ''a1\<newline>b2''))"
  proof -
    have h: "(- 3 :: int) \<le> 0" "(0 :: int) \<le> 0" "NoFilter \<noteq> BadPattern" by simp_all
    from inst[where ne = 0] h
    have "main NoFilter (Regular ''a1\<newline>b2'') True False (- 3) 0 =
          (banner # map (\<lambda>l. renderLine l (compiled NoFilter) False)
                        (filter (selected (compiled NoFilter)) (fst (Scanner ''a1\<newline>b2''))),
           case snd (Scanner ''a1\<newline>b2'') of
             Some err \<Rightarrow> Stopped err
           | None \<Rightarrow> after_initial True (length ''a1\<newline>b2''))"
      by blast
    with sc_ab show ?thesis
      by (simp add: compiled_def selected_def renderLine_plain after_initial_def)
  qed
  have c: "main NoFilter (Regular ''a1\<newline>b2'') True False (- 3) 5
       = main NoFilter (Regular ''a1\<newline>b2'') True False 0 5"
  proof -
    have "(- 3 :: int) \<le> 0" by simp
    with inst[where ne = 5] show ?thesis by blast
  qed
  from a b c show ?thesis by simp
qed

section \<open>Properties of the follow engine\<close>

subsection \<open>The line loop\<close>

lemma IndexByte_None_iff: "IndexByte s c = None \<longleftrightarrow> c \<notin> set s"
  by (induction s) (auto split: option.splits)

lemma IndexByte_Some_nth: "IndexByte s c = Some i \<Longrightarrow> s ! i = c \<and> c \<notin> set (take i s)"
  by (induction s arbitrary: i) (auto split: if_splits option.splits)

lemma IndexByte_append: "IndexByte s c = Some i \<Longrightarrow> IndexByte (s @ t) c = Some i"
  by (induction s arbitrary: i) (auto split: if_splits option.splits)

lemma IndexByte_decomp:
  "IndexByte s c = Some i \<Longrightarrow> s = take i s @ c # drop (Suc i) s"
  by (induction s arbitrary: i) (auto split: if_splits option.splits)

lemma emitLines_None: "IndexByte buf NL = None \<Longrightarrow> emitLines rx col buf out = (buf, out)"
  by (subst emitLines.simps) simp

lemma emitLines_Some:
  "IndexByte buf NL = Some nl \<Longrightarrow>
   emitLines rx col buf out =
     emitLines rx col (drop (nl + 1) buf)
       (if selected rx (slice buf 0 nl) then out @ [renderLine (slice buf 0 nl) rx col] else out)"
  by (subst emitLines.simps) simp

lemma emitLines_prefix:
  "emitLines rx col buf (pre @ out)
     = (fst (emitLines rx col buf out), pre @ snd (emitLines rx col buf out))"
proof (induction rx col buf out rule: emitLines.induct)
  case (1 rx col buf out)
  show ?case
  proof (cases "IndexByte buf NL")
    case None
    then show ?thesis by (simp add: emitLines_None)
  next
    case (Some nl)
    then show ?thesis
      using "1.IH"[OF Some]
      by (cases "selected rx (slice buf 0 nl)") (simp_all add: emitLines_Some)
  qed
qed

lemma emitLines_acc:
  "emitLines rx col buf out = (fst (emitLines rx col buf []), out @ snd (emitLines rx col buf []))"
  using emitLines_prefix[of rx col buf out "[]"] by simp

text \<open>Lines taken from a buffer first, then from what is appended: the same as all at once.\<close>

lemma emitLines_append:
  "emitLines rx col (buf @ data) out
     = emitLines rx col (fst (emitLines rx col buf out) @ data) (snd (emitLines rx col buf out))"
proof (induction rx col buf out rule: emitLines.induct)
  case (1 rx col buf out)
  show ?case
  proof (cases "IndexByte buf NL")
    case None
    then show ?thesis by (simp add: emitLines_None)
  next
    case (Some nl)
    then have lt: "nl < length buf" by (rule IndexByte_lt_length)
    have app: "IndexByte (buf @ data) NL = Some nl" using Some by (rule IndexByte_append)
    have sl: "slice (buf @ data) 0 nl = slice buf 0 nl" using lt by (simp add: slice_def)
    have dr: "drop (nl + 1) (buf @ data) = drop (nl + 1) buf @ data" using lt by simp
    show ?thesis
      using "1.IH"[OF Some] unfolding emitLines_Some[OF Some] emitLines_Some[OF app] sl dr
      by (cases "selected rx (slice buf 0 nl)") simp_all
  qed
qed

lemma emitLines_no_NL: "NL \<notin> set (fst (emitLines rx col buf out))"
proof (induction rx col buf out rule: emitLines.induct)
  case (1 rx col buf out)
  show ?case
  proof (cases "IndexByte buf NL")
    case None
    then show ?thesis by (simp add: emitLines_None IndexByte_None_iff)
  next
    case (Some nl)
    then show ?thesis using "1.IH"[OF Some] by (simp add: emitLines_Some)
  qed
qed

text \<open>Without filter and colour the output is the raw lines: with their terminators and
  the rest that is kept they make up the buffer.\<close>

lemma emitLines_raw:
  "concat (map (\<lambda>l. l @ [NL]) (snd (emitLines None False buf out))) @ fst (emitLines None False buf out)
     = concat (map (\<lambda>l. l @ [NL]) out) @ buf"
proof (induction "None :: regexp option" False buf out rule: emitLines.induct)
  case (1 buf out)
  show ?case
  proof (cases "IndexByte buf NL")
    case None
    then show ?thesis by (simp add: emitLines_None)
  next
    case (Some nl)
    have "buf = slice buf 0 nl @ NL # drop (nl + 1) buf"
      using IndexByte_decomp[OF Some] by (simp add: slice_def)
    then have "concat (map (\<lambda>l. l @ [NL]) (out @ [slice buf 0 nl])) @ drop (nl + 1) buf
          = concat (map (\<lambda>l. l @ [NL]) out) @ buf"
      by simp
    then show ?thesis
      using "1.hyps"[OF Some] by (simp add: emitLines_Some[OF Some] selected_def renderLine_plain)
  qed
qed

lemma emitLines_filter:
  "emitLines rx col buf out
     = (fst (emitLines None False buf []),
        out @ map (\<lambda>l. renderLine l rx col) (filter (selected rx) (snd (emitLines None False buf []))))"
proof (induction rx col buf out rule: emitLines.induct)
  case (1 rx col buf out)
  show ?case
  proof (cases "IndexByte buf NL")
    case None
    then show ?thesis by (simp add: emitLines_None)
  next
    case (Some nl)
    have raw: "emitLines None False buf [] = emitLines None False (drop (nl + 1) buf) [slice buf 0 nl]"
      by (simp add: emitLines_Some[OF Some] selected_def renderLine_plain)
    have "emitLines None False (drop (nl + 1) buf) ([slice buf 0 nl] @ [])
        = (fst (emitLines None False (drop (nl + 1) buf) []),
           [slice buf 0 nl] @ snd (emitLines None False (drop (nl + 1) buf) []))"
      by (rule emitLines_prefix)
    with raw have rawfst: "fst (emitLines None False buf []) = fst (emitLines None False (drop (nl + 1) buf) [])"
      and rawsnd: "snd (emitLines None False buf [])
                    = slice buf 0 nl # snd (emitLines None False (drop (nl + 1) buf) [])"
      by simp_all
    have step: "emitLines rx col buf out =
       emitLines rx col (drop (nl + 1) buf)
         (if selected rx (slice buf 0 nl) then out @ [renderLine (slice buf 0 nl) rx col] else out)"
      by (rule emitLines_Some[OF Some])
    show ?thesis
      using "1.IH"[OF Some] unfolding step rawfst rawsnd
      by (cases "selected rx (slice buf 0 nl)") simp_all
  qed
qed

subsection \<open>The read loop\<close>

lemma readLoop_done: "\<not> start < cur \<Longrightarrow> readLoop rx col f cur start buf out = Some (buf, out)"
  by (subst readLoop.simps) simp

lemma readLoop_step:
  "start < cur \<Longrightarrow>
   readLoop rx col f cur start buf out =
     (let r = ReadAt f (min (cur - start) chunk) start;
          b = absorb rx col buf out (fst r)
      in if snd r = Some EIO then Some b
         else readLoop rx col f cur (start + length (fst r)) (fst b) (snd b))"
  by (subst readLoop.simps) simp

lemma chunk_pos: "0 < chunk"
  by (simp add: chunk_def)

lemma ReadAt_sound:
  "fault f = None \<Longrightarrow> start + want \<le> length (bytes f) \<Longrightarrow>
   ReadAt f want start = (take want (drop start (bytes f)), None)"
  by (simp add: ReadAt_def readable_def Let_def)

text \<open>On a file without fault that is as long as the size says, the loop ends and has
  absorbed the bytes from \<open>start\<close> to \<open>cur\<close>.\<close>

lemma readLoop_sound:
  assumes "fault f = None" "cur \<le> length (bytes f)" "start < cur"
  shows "readLoop rx col f cur start buf out
           = Some (emitLines rx col (buf @ slice (bytes f) start cur) out)"
  using assms(3)
proof (induction "cur - start" arbitrary: start buf out rule: less_induct)
  case less
  let ?want = "min (cur - start) chunk"
  let ?data = "take ?want (drop start (bytes f))"
  have want: "0 < ?want" "start + ?want \<le> cur" using less.prems chunk_pos by auto
  have rd: "ReadAt f ?want start = (?data, None)"
    using assms(1,2) want by (intro ReadAt_sound) auto
  have len: "length ?data = ?want" using assms(2) want by simp
  let ?b = "emitLines rx col (buf @ ?data) out"
  have ab: "absorb rx col buf out ?data = ?b" using len want by (simp add: absorb_def)
  have step: "readLoop rx col f cur start buf out
                = readLoop rx col f cur (start + ?want) (fst ?b) (snd ?b)"
    using less.prems rd ab len by (simp add: readLoop_step Let_def)
  show ?case
  proof (cases "start + ?want < cur")
    case False
    with want have eq: "start + ?want = cur" by simp
    then have "?want = cur - start" by simp
    then have "?data = slice (bytes f) start cur" by (simp add: slice_def)
    with step eq show ?thesis by (simp add: readLoop_done)
  next
    case True
    have "cur - (start + ?want) < cur - start" using want True by simp
    from less.hyps[OF this True]
    have "readLoop rx col f cur (start + ?want) (fst ?b) (snd ?b)
            = Some (emitLines rx col (fst ?b @ slice (bytes f) (start + ?want) cur) (snd ?b))" .
    also have "\<dots> = Some (emitLines rx col ((buf @ ?data) @ slice (bytes f) (start + ?want) cur) out)"
      by (rule arg_cong[where f = Some], rule emitLines_append[symmetric])
    finally have rec: "readLoop rx col f cur (start + ?want) (fst ?b) (snd ?b)
            = Some (emitLines rx col ((buf @ ?data) @ slice (bytes f) (start + ?want) cur) out)" .
    have cat: "?data @ slice (bytes f) (start + ?want) cur = slice (bytes f) start cur"
    proof -
      have "cur - start = ?want + (cur - (start + ?want))" using True by simp
      then have "take (cur - start) (drop start (bytes f))
            = take ?want (drop start (bytes f)) @ take (cur - (start + ?want)) (drop ?want (drop start (bytes f)))"
        by (metis take_add)
      then show ?thesis by (simp add: slice_def add.commute)
    qed
    show ?thesis using step rec cat by simp
  qed
qed

text \<open>Whenever the loop ends, the carry it leaves holds no newline, if it held none before.\<close>

lemma absorb_no_NL: "NL \<notin> set buf \<Longrightarrow> NL \<notin> set (fst (absorb rx col buf out data))"
  by (simp add: absorb_def emitLines_no_NL)

lemma readLoop_no_NL:
  assumes "readLoop rx col f cur start buf out = Some res" "NL \<notin> set buf"
  shows "NL \<notin> set (fst res)"
  using assms
proof (induction rule: readLoop.raw_induct[rotated 1, consumes 1])
  case (1 loop rx col f cur start buf out res)
  show ?case
  proof (cases "start < cur")
    case False
    with 1 show ?thesis by auto
  next
    case True
    let ?r = "ReadAt f (min (cur - start) chunk) start"
    let ?b = "absorb rx col buf out (fst ?r)"
    have nl: "NL \<notin> set (fst ?b)" using 1(3) by (rule absorb_no_NL)
    show ?thesis
    proof (cases "snd ?r = Some EIO")
      case True
      with 1(2) \<open>start < cur\<close> nl show ?thesis by (auto simp: Let_def)
    next
      case False
      with 1(2) \<open>start < cur\<close> have "loop rx col f cur (start + length (fst ?r)) (fst ?b) (snd ?b) = Some res"
        by (simp add: Let_def)
      from 1(1)[OF this nl] show ?thesis .
    qed
  qed
qed

text \<open>
  The loop returns only if every round makes progress or fails: a round whose read returns
  no byte and no error other than \<open>EOF\<close> is repeated for ever.
\<close>

lemma readLoop_returns_progress:
  assumes "readLoop rx col f cur start buf out = Some res"
  shows "\<not> (start < cur \<and> fst (ReadAt f (min (cur - start) chunk) start) = []
            \<and> snd (ReadAt f (min (cur - start) chunk) start) \<noteq> Some EIO)"
  using assms
proof (induction rule: readLoop.raw_induct[rotated 1, consumes 1])
  case (1 loop rx col f cur start buf out res)
  show ?case
  proof
    assume spin: "start < cur \<and> fst (ReadAt f (min (cur - start) chunk) start) = []
            \<and> snd (ReadAt f (min (cur - start) chunk) start) \<noteq> Some EIO"
    with 1(2) have "loop rx col f cur start buf out = Some res"
      by (simp add: Let_def absorb_def)
    from 1(1)[OF this] spin show False by simp
  qed
qed

lemma readLoop_spins:
  assumes "start < cur" "fst (ReadAt f (min (cur - start) chunk) start) = []"
    "snd (ReadAt f (min (cur - start) chunk) start) \<noteq> Some EIO"
  shows "readLoop rx col f cur start buf out = None"
proof (cases "readLoop rx col f cur start buf out")
  case None
  then show ?thesis .
next
  case (Some res)
  from readLoop_returns_progress[OF this] assms show ?thesis by simp
qed

text \<open>So a drain does not return when the file that is opened is shorter than the size
  that was reported, here empty against a size of 3.\<close>

lemma readNew_short_file_does_not_return:
  "readNew None False \<lparr>Stat = Some 3, Open = Some \<lparr>bytes = [], fault = None\<rparr>\<rparr> \<lparr>offset = 0, carry = []\<rparr> = None"
  by (simp add: readNew_def readLoop_spins ReadAt_def readable_def Let_def chunk_def)

subsection \<open>Drains of a file in order\<close>

lemma readNew_healthy:
  assumes "offset st \<le> length content"
  shows "readNew rx col (healthy content) st =
           Some (if offset st = length content then ([], st)
                 else (snd (emitLines rx col (carry st @ drop (offset st) content) []),
                       \<lparr>offset = length content,
                        carry = fst (emitLines rx col (carry st @ drop (offset st) content) [])\<rparr>))"
proof (cases "offset st = length content")
  case True
  then show ?thesis by (simp add: readNew_def healthy_def)
next
  case False
  with assms have lt: "offset st < length content" by simp
  have "readLoop rx col \<lparr>bytes = content, fault = None\<rparr> (length content) (offset st) (carry st) []
          = Some (emitLines rx col (carry st @ slice content (offset st) (length content)) [])"
    using readLoop_sound[of "\<lparr>bytes = content, fault = None\<rparr>" "length content" "offset st" rx col "carry st" "[]"] lt
    by simp
  moreover have "slice content (offset st) (length content) = drop (offset st) content"
    by (simp add: slice_def)
  ultimately show ?thesis
    using lt by (simp add: readNew_def healthy_def Let_def split_beta)
qed

lemma readNew_healthy_truncated:
  assumes "length content < offset st"
  shows "readNew rx col (healthy content) st = readNew rx col (healthy content) \<lparr>offset = 0, carry = []\<rparr>"
  using assms by (simp add: readNew_def healthy_def Let_def)

text \<open>Two drains, the second after more bytes were appended, give what one drain gives.\<close>

lemma readNew_compose:
  assumes le: "offset st \<le> length x"
    and d1: "readNew rx col (healthy x) st = Some (o1, st1)"
    and d2: "readNew rx col (healthy (x @ y)) st1 = Some (o2, st2)"
  shows "readNew rx col (healthy (x @ y)) st = Some (o1 @ o2, st2)"
proof (cases "offset st = length x")
  case True
  with d1 le have "o1 = []" "st1 = st" by (simp_all add: readNew_healthy)
  with d2 show ?thesis by simp
next
  case False
  with le have lt: "offset st < length x" by simp
  let ?E1 = "emitLines rx col (carry st @ drop (offset st) x) []"
  from d1 lt have o1: "o1 = snd ?E1" and st1: "st1 = \<lparr>offset = length x, carry = fst ?E1\<rparr>"
    by (simp_all add: readNew_healthy)
  show ?thesis
  proof (cases "y = []")
    case True
    with d2 st1 have "o2 = []" "st2 = st1" by (simp_all add: readNew_healthy)
    with d1 True show ?thesis by simp
  next
    case False
    let ?E2 = "emitLines rx col (fst ?E1 @ y) []"
    from d2 st1 False have o2: "o2 = snd ?E2" and st2: "st2 = \<lparr>offset = length (x @ y), carry = fst ?E2\<rparr>"
      by (simp_all add: readNew_healthy)
    have "emitLines rx col (carry st @ drop (offset st) (x @ y)) []
            = emitLines rx col ((carry st @ drop (offset st) x) @ y) []"
      using lt by simp
    also have "\<dots> = emitLines rx col (fst ?E1 @ y) (snd ?E1)"
      by (rule emitLines_append)
    also have "\<dots> = (fst ?E2, snd ?E1 @ snd ?E2)"
      by (rule emitLines_acc)
    finally have "emitLines rx col (carry st @ drop (offset st) (x @ y)) [] = (fst ?E2, snd ?E1 @ snd ?E2)" .
    then show ?thesis
      using lt o1 o2 st2 readNew_healthy[of st "x @ y" rx col] by simp
  qed
qed

lemma readNew_healthy_returns:
  assumes "offset st \<le> length content"
  shows "\<exists>out st'. readNew rx col (healthy content) st = Some (out, st') \<and> offset st' = length content"
  unfolding readNew_healthy[OF assms] by (cases "offset st = length content") simp_all

lemma drains_eq_single:
  assumes "offset st = length base"
  shows "drains rx col base chunks st = readNew rx col (healthy (base @ concat chunks)) st"
  using assms
proof (induction chunks arbitrary: base st)
  case Nil
  then show ?case by (simp add: readNew_healthy)
next
  case (Cons b bs)
  from Cons.prems have le: "offset st \<le> length (base @ b)" by simp
  obtain o1 st1 where d1: "readNew rx col (healthy (base @ b)) st = Some (o1, st1)"
    and off1: "offset st1 = length (base @ b)"
    using readNew_healthy_returns[OF le, of rx col] by blast
  have ih: "drains rx col (base @ b) bs st1 = readNew rx col (healthy ((base @ b) @ concat bs)) st1"
    using off1 by (rule Cons.IH)
  have "offset st1 \<le> length ((base @ b) @ concat bs)" using off1 by simp
  from readNew_healthy_returns[OF this, of rx col]
  obtain o2 st2 where d2: "readNew rx col (healthy ((base @ b) @ concat bs)) st1 = Some (o2, st2)"
    by blast
  from readNew_compose[OF le d1 d2]
  have "readNew rx col (healthy (base @ concat (b # bs))) st = Some (o1 @ o2, st2)" by simp
  then show ?case using d1 d2 ih by simp
qed

lemma readNew_healthy_lines:
  assumes "offset st \<le> length content" "NL \<notin> set (carry st)"
  shows "\<exists>ls r. readNew rx col (healthy content) st
            = Some (map (\<lambda>l. renderLine l rx col) (filter (selected rx) ls),
                    \<lparr>offset = length content, carry = r\<rparr>)
          \<and> concat (map (\<lambda>l. l @ [NL]) ls) @ r = carry st @ drop (offset st) content
          \<and> NL \<notin> set r"
proof (cases "offset st = length content")
  case True
  then have "readNew rx col (healthy content) st
      = Some (map (\<lambda>l. renderLine l rx col) (filter (selected rx) []), \<lparr>offset = length content, carry = carry st\<rparr>)"
    using assms(1) by (simp add: readNew_healthy)
  then show ?thesis using assms(2) True by fastforce
next
  case False
  let ?buf = "carry st @ drop (offset st) content"
  let ?R = "emitLines None False ?buf []"
  have "emitLines rx col ?buf [] = (fst ?R, map (\<lambda>l. renderLine l rx col) (filter (selected rx) (snd ?R)))"
    using emitLines_filter[of rx col ?buf "[]"] by simp
  then have "readNew rx col (healthy content) st
      = Some (map (\<lambda>l. renderLine l rx col) (filter (selected rx) (snd ?R)),
              \<lparr>offset = length content, carry = fst ?R\<rparr>)"
    using assms(1) False by (simp add: readNew_healthy)
  moreover have "concat (map (\<lambda>l. l @ [NL]) (snd ?R)) @ fst ?R = ?buf"
    using emitLines_raw[of ?buf "[]"] by simp
  moreover have "NL \<notin> set (fst ?R)" by (rule emitLines_no_NL)
  ultimately show ?thesis by blast
qed

text \<open>
  C1. Let the follow state be up to date with a file that holds \<open>base\<close>, and let bytes
  be appended in any number of chunks of any sizes, a drain after each. The lines
  emitted by these drains, one after the other, and the state they leave are those of one
  single drain after all the bytes have been appended. Moreover the emitted lines are the
  rendered matching ones among the complete lines of the carry followed by the appended
  bytes: these lines with their terminators, followed by the new carry, are exactly those
  bytes, and the new carry holds no terminator. So a trailing fragment without
  terminator is kept back and no line is lost, doubled or split.
\<close>

theorem C1_chunked_drains_equal_single_drain:
  assumes "offset st = length base"
  shows "drains rx col base chunks st = readNew rx col (healthy (base @ concat chunks)) st
       \<and> (NL \<notin> set (carry st) \<longrightarrow>
          (\<exists>ls r. drains rx col base chunks st
                     = Some (map (\<lambda>l. renderLine l rx col) (filter (selected rx) ls),
                             \<lparr>offset = length (base @ concat chunks), carry = r\<rparr>)
                 \<and> concat (map (\<lambda>l. l @ [NL]) ls) @ r = carry st @ concat chunks
                 \<and> NL \<notin> set r))"
proof (intro conjI impI)
  show eq: "drains rx col base chunks st = readNew rx col (healthy (base @ concat chunks)) st"
    using assms by (rule drains_eq_single)
  assume nl: "NL \<notin> set (carry st)"
  have "offset st \<le> length (base @ concat chunks)" using assms by simp
  from readNew_healthy_lines[OF this nl, of rx col]
  show "\<exists>ls r. drains rx col base chunks st
                     = Some (map (\<lambda>l. renderLine l rx col) (filter (selected rx) ls),
                             \<lparr>offset = length (base @ concat chunks), carry = r\<rparr>)
                 \<and> concat (map (\<lambda>l. l @ [NL]) ls) @ r = carry st @ concat chunks
                 \<and> NL \<notin> set r"
    unfolding eq using assms by simp
qed

theorem C1_witness:
  "offset \<lparr>offset = 2, carry = []\<rparr> = length ''x\<newline>''
   \<and> drains None False ''x\<newline>'' [''ab'', ''c\<newline>d'', ''e\<newline>f''] \<lparr>offset = 2, carry = []\<rparr>
       = Some ([''abc'', ''de''], \<lparr>offset = 10, carry = ''f''\<rparr>)
   \<and> drains None False ''x\<newline>'' [''abc\<newline>de\<newline>f''] \<lparr>offset = 2, carry = []\<rparr>
       = Some ([''abc'', ''de''], \<lparr>offset = 10, carry = ''f''\<rparr>)"
proof -
  have e: "emitLines None False ''abc\<newline>de\<newline>f'' [] = (''f'', [''abc'', ''de''])"
    by code_simp
  have "readNew None False (healthy ''x\<newline>abc\<newline>de\<newline>f'') \<lparr>offset = 2, carry = []\<rparr>
       = Some ([''abc'', ''de''], \<lparr>offset = 10, carry = ''f''\<rparr>)"
    by (simp add: readNew_healthy e)
  then show ?thesis
    using C1_chunked_drains_equal_single_drain[of "\<lparr>offset = 2, carry = []\<rparr>" "''x\<newline>''" None False
            "[''ab'', ''c\<newline>d'', ''e\<newline>f'']"]
          C1_chunked_drains_equal_single_drain[of "\<lparr>offset = 2, carry = []\<rparr>" "''x\<newline>''" None False
            "[''abc\<newline>de\<newline>f'']"]
    by simp
qed

text \<open>
  C4. The drain is idempotent: when a drain has returned, a second drain that finds the
  outside unchanged prints nothing and leaves offset and carry as the first one left
  them. A drain that finds the size equal to the offset does nothing.
\<close>

theorem C4_drain_is_idempotent:
  "(readNew rx col e st = Some (out, st') \<longrightarrow> readNew rx col e st' = Some ([], st'))
   \<and> (Stat e = Some (offset st) \<longrightarrow> readNew rx col e st = Some ([], st))"
proof (intro conjI impI)
  assume r: "readNew rx col e st = Some (out, st')"
  show "readNew rx col e st' = Some ([], st')"
  proof (cases "Stat e")
    case None
    with r show ?thesis by (simp add: readNew_def)
  next
    case (Some cur)
    let ?st1 = "if cur < offset st then st\<lparr>offset := 0, carry := []\<rparr> else st"
    show ?thesis
    proof (cases "cur = offset ?st1")
      case True
      with r Some have "st' = ?st1" by (simp add: readNew_def Let_def)
      with True Some show ?thesis by (simp add: readNew_def Let_def)
    next
      case ne: False
      show ?thesis
      proof (cases "Open e")
        case None
        with r Some ne have "st' = ?st1" by (simp add: readNew_def Let_def)
        with ne Some None show ?thesis by (auto simp: readNew_def Let_def)
      next
        case (Some f)
        with r \<open>Stat e = Some cur\<close> ne have "offset st' = cur"
          by (auto simp: readNew_def Let_def split: option.splits)
        with \<open>Stat e = Some cur\<close> show ?thesis by (simp add: readNew_def Let_def)
      qed
    qed
  qed
next
  assume "Stat e = Some (offset st)"
  then show "readNew rx col e st = Some ([], st)" by (simp add: readNew_def Let_def)
qed

theorem C4_witness:
  "readNew None False (healthy ''a\<newline>b'') \<lparr>offset = 0, carry = []\<rparr> = Some ([''a''], \<lparr>offset = 3, carry = ''b''\<rparr>)
   \<and> readNew None False (healthy ''a\<newline>b'') \<lparr>offset = 3, carry = ''b''\<rparr> = Some ([], \<lparr>offset = 3, carry = ''b''\<rparr>)
   \<and> Stat (healthy ''a\<newline>b'') = Some (offset \<lparr>offset = 3, carry = ''b''\<rparr>)"
proof -
  have e: "emitLines None False ''a\<newline>b'' [] = (''b'', [''a''])"
    by code_simp
  have d: "readNew None False (healthy ''a\<newline>b'') \<lparr>offset = 0, carry = []\<rparr> = Some ([''a''], \<lparr>offset = 3, carry = ''b''\<rparr>)"
    by (simp add: readNew_healthy e)
  from C4_drain_is_idempotent[of None False "healthy ''a\<newline>b''" "\<lparr>offset = 0, carry = []\<rparr>" "[''a'']"
         "\<lparr>offset = 3, carry = ''b''\<rparr>"] d
  show ?thesis by (simp add: healthy_def)
qed

lemma reset_eq: "(st :: follow)\<lparr>offset := 0, carry := []\<rparr> = \<lparr>offset = 0, carry = []\<rparr>"
  by (cases st) simp

text \<open>
  C5. When the size that a drain finds is strictly less than the stored offset, the
  drain does what it would do from the state with offset 0 and an empty carry: the old
  carry is discarded and the file is read from its first byte. On a file in order the
  lines it emits are the rendered matching ones among the complete lines of the new
  content alone, the rest of the content is the new carry, and the offset ends at the
  size of the new content.
\<close>

theorem C5_truncation_restarts_from_zero:
  "(Stat e = Some cur \<and> cur < offset st \<longrightarrow>
      readNew rx col e st = readNew rx col e \<lparr>offset = 0, carry = []\<rparr>)
   \<and> (length content < offset st \<longrightarrow>
      (\<exists>ls r. readNew rx col (healthy content) st
                 = Some (map (\<lambda>l. renderLine l rx col) (filter (selected rx) ls),
                         \<lparr>offset = length content, carry = r\<rparr>)
             \<and> concat (map (\<lambda>l. l @ [NL]) ls) @ r = content
             \<and> NL \<notin> set r))"
proof (intro conjI impI)
  assume "Stat e = Some cur \<and> cur < offset st"
  then show "readNew rx col e st = readNew rx col e \<lparr>offset = 0, carry = []\<rparr>"
    by (simp add: readNew_def Let_def reset_eq)
next
  assume t: "length content < offset st"
  have "offset \<lparr>offset = 0, carry = []\<rparr> \<le> length content"
    and "NL \<notin> set (carry \<lparr>offset = 0, carry = []\<rparr>)" by simp_all
  from readNew_healthy_lines[OF this, of rx col]
  show "\<exists>ls r. readNew rx col (healthy content) st
                 = Some (map (\<lambda>l. renderLine l rx col) (filter (selected rx) ls),
                         \<lparr>offset = length content, carry = r\<rparr>)
             \<and> concat (map (\<lambda>l. l @ [NL]) ls) @ r = content
             \<and> NL \<notin> set r"
    unfolding readNew_healthy_truncated[OF t] by simp
qed

theorem C5_witness:
  "Stat (healthy ''new\<newline>li'') = Some 6 \<and> 6 < offset \<lparr>offset = 40, carry = ''old''\<rparr>
   \<and> length ''new\<newline>li'' < offset \<lparr>offset = 40, carry = ''old''\<rparr>
   \<and> readNew None False (healthy ''new\<newline>li'') \<lparr>offset = 40, carry = ''old''\<rparr>
       = Some ([''new''], \<lparr>offset = 6, carry = ''li''\<rparr>)"
proof -
  have e: "emitLines None False ''new\<newline>li'' [] = (''li'', [''new''])"
    by code_simp
  have fresh: "readNew None False (healthy ''new\<newline>li'') \<lparr>offset = 0, carry = []\<rparr>
       = Some ([''new''], \<lparr>offset = 6, carry = ''li''\<rparr>)"
    by (simp add: readNew_healthy e)
  have h: "Stat (healthy ''new\<newline>li'') = Some 6" "6 < offset \<lparr>offset = 40, carry = ''old''\<rparr>"
    by (simp_all add: healthy_def)
  from C5_truncation_restarts_from_zero[of "healthy ''new\<newline>li''" 6 "\<lparr>offset = 40, carry = ''old''\<rparr>" None False] h
  have "readNew None False (healthy ''new\<newline>li'') \<lparr>offset = 40, carry = ''old''\<rparr>
        = readNew None False (healthy ''new\<newline>li'') \<lparr>offset = 0, carry = []\<rparr>"
    by blast
  with fresh h show ?thesis by simp
qed

subsection \<open>The state after a drain\<close>

lemma readNew_no_NL:
  assumes "readNew rx col e st = Some (out, st')" "NL \<notin> set (carry st)"
  shows "NL \<notin> set (carry st')"
proof (cases "Stat e")
  case None
  with assms show ?thesis by (simp add: readNew_def)
next
  case (Some cur)
  let ?st1 = "if cur < offset st then st\<lparr>offset := 0, carry := []\<rparr> else st"
  have nl1: "NL \<notin> set (carry ?st1)" using assms(2) by simp
  show ?thesis
  proof (cases "cur = offset ?st1 \<or> Open e = None")
    case True
    with assms(1) Some have "st' = ?st1"
      by (auto simp: readNew_def Let_def split: if_splits option.splits)
    with nl1 show ?thesis by simp
  next
    case False
    then obtain f where f: "Open e = Some f" and ne: "cur \<noteq> offset ?st1" by auto
    from assms(1) Some f ne obtain res
      where loop: "readLoop rx col f cur (offset ?st1) (carry ?st1) [] = Some res"
        and st': "st' = \<lparr>offset = cur, carry = fst res\<rparr>"
      by (auto simp: readNew_def Let_def split: option.splits if_splits)
    from readLoop_no_NL[OF loop nl1] st' show ?thesis by simp
  qed
qed

lemma readNew_sound_returns:
  assumes "Stat e = Some cur" "Open e = Some f" "fault f = None" "cur \<le> length (bytes f)"
  shows "\<exists>out r. readNew rx col e st = Some (out, \<lparr>offset = cur, carry = r\<rparr>)"
proof -
  let ?st1 = "if cur < offset st then st\<lparr>offset := 0, carry := []\<rparr> else st"
  show ?thesis
  proof (cases "cur = offset ?st1")
    case True
    have "?st1 = \<lparr>offset = offset ?st1, carry = carry ?st1\<rparr>" by simp
    with True have "?st1 = \<lparr>offset = cur, carry = carry ?st1\<rparr>" by simp
    moreover have "readNew rx col e st = Some ([], ?st1)"
      using assms(1) True by (simp add: readNew_def Let_def)
    ultimately show ?thesis by metis
  next
    case False
    then have lt: "offset ?st1 < cur" by (auto split: if_splits)
    from readLoop_sound[OF assms(3,4) lt, of rx col "carry ?st1" "[]"]
    show ?thesis using assms(1,2) False by (simp add: readNew_def Let_def split_beta)
  qed
qed

text \<open>
  C6, as the code has it. After every drain that returns, the carry holds no line
  terminator if it held none before. When the stat fails the state is unchanged. When
  the stat succeeds and the open fails, the state is unchanged unless a truncation was
  seen, in which case the offset is 0 and the carry empty. When the file is opened, is
  as long as the size says and no read fails, the drain returns and the offset is the size
  that this drain has seen.
\<close>

theorem C6_state_after_a_drain:
  "(NL \<notin> set (carry st) \<and> readNew rx col e st = Some (out, st') \<longrightarrow> NL \<notin> set (carry st'))
   \<and> (Stat e = None \<longrightarrow> readNew rx col e st = Some ([], st))
   \<and> (Stat e = Some cur \<and> Open e = None \<longrightarrow>
        readNew rx col e st = Some ([], if cur < offset st then \<lparr>offset = 0, carry = []\<rparr> else st))
   \<and> (Stat e = Some cur \<and> Open e = Some f \<and> fault f = None \<and> cur \<le> length (bytes f) \<longrightarrow>
        (\<exists>out r. readNew rx col e st = Some (out, \<lparr>offset = cur, carry = r\<rparr>)))"
proof (intro conjI impI)
  assume "NL \<notin> set (carry st) \<and> readNew rx col e st = Some (out, st')"
  then show "NL \<notin> set (carry st')" using readNew_no_NL by blast
next
  assume "Stat e = None"
  then show "readNew rx col e st = Some ([], st)" by (simp add: readNew_def)
next
  assume "Stat e = Some cur \<and> Open e = None"
  then show "readNew rx col e st = Some ([], if cur < offset st then \<lparr>offset = 0, carry = []\<rparr> else st)"
    by (auto simp: readNew_def Let_def)
next
  assume "Stat e = Some cur \<and> Open e = Some f \<and> fault f = None \<and> cur \<le> length (bytes f)"
  then show "\<exists>out r. readNew rx col e st = Some (out, \<lparr>offset = cur, carry = r\<rparr>)"
    using readNew_sound_returns by blast
qed

theorem C6_witness:
  "NL \<notin> set (carry \<lparr>offset = 0, carry = []\<rparr>)
   \<and> readNew None False (healthy ''a\<newline>b'') \<lparr>offset = 0, carry = []\<rparr>
       = Some ([''a''], \<lparr>offset = 3, carry = ''b''\<rparr>)
   \<and> NL \<notin> set (carry \<lparr>offset = 3, carry = ''b''\<rparr>)
   \<and> Stat \<lparr>Stat = None, Open = None\<rparr> = None
   \<and> readNew None False \<lparr>Stat = None, Open = None\<rparr> \<lparr>offset = 3, carry = ''b''\<rparr>
       = Some ([], \<lparr>offset = 3, carry = ''b''\<rparr>)
   \<and> Stat \<lparr>Stat = Some 2, Open = None\<rparr> = Some 2 \<and> Open \<lparr>Stat = Some 2, Open = None\<rparr> = None
   \<and> readNew None False \<lparr>Stat = Some 2, Open = None\<rparr> \<lparr>offset = 3, carry = ''b''\<rparr>
       = Some ([], \<lparr>offset = 0, carry = []\<rparr>)
   \<and> Stat (healthy ''a\<newline>b'') = Some 3
   \<and> Open (healthy ''a\<newline>b'') = Some \<lparr>bytes = ''a\<newline>b'', fault = None\<rparr>
   \<and> (\<exists>out r. readNew None False (healthy ''a\<newline>b'') \<lparr>offset = 0, carry = []\<rparr>
                 = Some (out, \<lparr>offset = 3, carry = r\<rparr>))"
proof -
  have e: "emitLines None False ''a\<newline>b'' [] = (''b'', [''a''])"
    by code_simp
  have d: "readNew None False (healthy ''a\<newline>b'') \<lparr>offset = 0, carry = []\<rparr>
       = Some ([''a''], \<lparr>offset = 3, carry = ''b''\<rparr>)"
    by (simp add: readNew_healthy e)
  have nl: "NL \<notin> set (carry \<lparr>offset = 0, carry = []\<rparr>)" by simp
  from C6_state_after_a_drain[of "\<lparr>offset = 0, carry = []\<rparr>" None False "healthy ''a\<newline>b''" "[''a'']"
      "\<lparr>offset = 3, carry = ''b''\<rparr>" 3 "\<lparr>bytes = ''a\<newline>b'', fault = None\<rparr>"] d nl
  have a: "NL \<notin> set (carry \<lparr>offset = 3, carry = ''b''\<rparr>)"
    and b: "\<exists>out r. readNew None False (healthy ''a\<newline>b'') \<lparr>offset = 0, carry = []\<rparr>
                 = Some (out, \<lparr>offset = 3, carry = r\<rparr>)"
    by (simp_all add: healthy_def)
  from C6_state_after_a_drain[of "\<lparr>offset = 3, carry = ''b''\<rparr>" None False "\<lparr>Stat = None, Open = None\<rparr>"]
  have c: "readNew None False \<lparr>Stat = None, Open = None\<rparr> \<lparr>offset = 3, carry = ''b''\<rparr>
       = Some ([], \<lparr>offset = 3, carry = ''b''\<rparr>)"
    by simp
  from C6_state_after_a_drain[of "\<lparr>offset = 3, carry = ''b''\<rparr>" None False "\<lparr>Stat = Some 2, Open = None\<rparr>" _ _ 2]
  have f: "readNew None False \<lparr>Stat = Some 2, Open = None\<rparr> \<lparr>offset = 3, carry = ''b''\<rparr>
       = Some ([], \<lparr>offset = 0, carry = []\<rparr>)"
    by simp
  from nl d a b c f show ?thesis by (simp add: healthy_def)
qed

text \<open>
  The offset is not always the size seen by the last drain that read with success: a
  drain reads ten bytes and leaves the offset at 10; the next one finds a size of 5 and
  cannot open the file, and leaves the offset at 0.
\<close>

theorem C6_offset_counterexample:
  "readNew None False (healthy ''0123456789'') \<lparr>offset = 0, carry = []\<rparr>
     = Some ([], \<lparr>offset = 10, carry = ''0123456789''\<rparr>)
   \<and> readNew None False \<lparr>Stat = Some 5, Open = None\<rparr> \<lparr>offset = 10, carry = ''0123456789''\<rparr>
     = Some ([], \<lparr>offset = 0, carry = []\<rparr>)
   \<and> offset \<lparr>offset = 0, carry = []\<rparr> \<noteq> 10
   \<and> offset \<lparr>offset = 0, carry = []\<rparr> \<noteq> 5"
proof -
  have e: "emitLines None False ''0123456789'' [] = (''0123456789'', [])"
    by code_simp
  have "readNew None False (healthy ''0123456789'') \<lparr>offset = 0, carry = []\<rparr>
     = Some ([], \<lparr>offset = 10, carry = ''0123456789''\<rparr>)"
    by (simp add: readNew_healthy e)
  moreover have "readNew None False \<lparr>Stat = Some 5, Open = None\<rparr> \<lparr>offset = 10, carry = ''0123456789''\<rparr>
     = Some ([], \<lparr>offset = 0, carry = []\<rparr>)"
    by (simp add: readNew_def)
  ultimately show ?thesis by simp
qed

text \<open>
  C3 does not hold of the code. A file holds two lines of two bytes each; the read fails
  after the first two bytes. The drain emits the first line, leaves the loop and sets the
  offset to the size 4 all the same. The next drain, with the fault gone, finds the size
  equal to the offset and reads nothing: the second line is never emitted, while a drain
  without fault emits both.
\<close>

theorem C3_read_error_skips_bytes:
  "readNew None False \<lparr>Stat = Some 4, Open = Some \<lparr>bytes = ''a\<newline>b\<newline>'', fault = Some 2\<rparr>\<rparr>
      \<lparr>offset = 0, carry = []\<rparr>
     = Some ([''a''], \<lparr>offset = 4, carry = []\<rparr>)
   \<and> readNew None False (healthy ''a\<newline>b\<newline>'') \<lparr>offset = 4, carry = []\<rparr>
     = Some ([], \<lparr>offset = 4, carry = []\<rparr>)
   \<and> readNew None False (healthy ''a\<newline>b\<newline>'') \<lparr>offset = 0, carry = []\<rparr>
     = Some ([''a'', ''b''], \<lparr>offset = 4, carry = []\<rparr>)"
proof -
  have e1: "emitLines None False ''a\<newline>'' [] = ([], [''a''])"
    by code_simp
  have e2: "emitLines None False ''a\<newline>b\<newline>'' [] = ([], [''a'', ''b''])"
    by code_simp
  have rd: "ReadAt \<lparr>bytes = ''a\<newline>b\<newline>'', fault = Some 2\<rparr> 4 0 = (''a\<newline>'', Some EIO)"
    by (simp add: ReadAt_def readable_def Let_def)
  have "readLoop None False \<lparr>bytes = ''a\<newline>b\<newline>'', fault = Some 2\<rparr> 4 0 [] [] = Some ([], [''a''])"
    by (subst readLoop_step) (simp_all add: chunk_def rd absorb_def e1 Let_def)
  then have "readNew None False \<lparr>Stat = Some 4, Open = Some \<lparr>bytes = ''a\<newline>b\<newline>'', fault = Some 2\<rparr>\<rparr>
      \<lparr>offset = 0, carry = []\<rparr>
     = Some ([''a''], \<lparr>offset = 4, carry = []\<rparr>)"
    by (simp add: readNew_def)
  moreover have "readNew None False (healthy ''a\<newline>b\<newline>'') \<lparr>offset = 4, carry = []\<rparr>
     = Some ([], \<lparr>offset = 4, carry = []\<rparr>)"
    by (simp add: readNew_healthy)
  moreover have "readNew None False (healthy ''a\<newline>b\<newline>'') \<lparr>offset = 0, carry = []\<rparr>
     = Some ([''a'', ''b''], \<lparr>offset = 4, carry = []\<rparr>)"
    by (simp add: readNew_healthy e2)
  ultimately show ?thesis by simp
qed

section \<open>Properties of the renderer\<close>

subsection \<open>renderLine\<close>

lemma spans_ok_weaken: "spans_ok lo hi spans \<Longrightarrow> lo' \<le> lo \<Longrightarrow> spans_ok lo' hi spans"
  by (cases spans) auto

lemma match_here_le: "match_here rx p s = Some (n, g) \<Longrightarrow> n \<le> length s"
  by (auto simp: match_here_def split: option.splits)

lemma find_all_spans_ok: "spans_ok i (i + length s) (find_all rx i am p s)"
proof (induction rx i am p s rule: find_all.induct)
  case (1 rx i am p)
  then show ?case by (simp split: option.splits)
next
  case (2 rx i am p c cs)
  show ?case
  proof (cases "match_here rx p (c # cs)")
    case None
    with 2(1) show ?thesis by (auto intro: spans_ok_weaken)
  next
    case (Some a)
    obtain n g where a: "a = (n, g)" by (cases a)
    show ?thesis
    proof (cases "n = 0")
      case True
      from 2(2)[OF Some a[symmetric] True]
      have "spans_ok i (i + length (c # cs)) (find_all rx (Suc i) False (Some c) cs)"
        by (auto intro: spans_ok_weaken)
      with Some a True show ?thesis by simp
    next
      case False
      from match_here_le[OF Some[unfolded a]] have le: "n \<le> length (c # cs)" .
      from 2(3)[OF Some a[symmetric] False] le
      have "spans_ok (i + n) (i + length (c # cs))
              (find_all rx (i + n) True (Some (last (take n (c # cs)))) (drop n (c # cs)))"
        by simp
      with Some a False le show ?thesis by simp
    qed
  qed
qed

lemma FindAllStringIndex_spans_ok: "spans_ok 0 (length raw) (FindAllStringIndex rx raw)"
  using find_all_spans_ok[of 0 raw rx False None] by (simp add: FindAllStringIndex_def)

lemma slice_cat: "a \<le> b \<Longrightarrow> b \<le> length s \<Longrightarrow> slice s a b @ drop b s = drop a s"
proof -
  assume "a \<le> b" "b \<le> length s"
  then have "drop b s = drop (b - a) (drop a s)" by simp
  then show ?thesis unfolding slice_def by (metis append_take_drop_id)
qed

lemma segments_partition:
  "spans_ok pos (length raw) spans \<Longrightarrow> pos \<le> length raw \<Longrightarrow>
   concat (map text_of (split_segments raw pos spans)) = drop pos raw"
proof (induction spans arbitrary: pos)
  case Nil
  then show ?case by (simp add: slice_def)
next
  case (Cons sp spans)
  obtain s e where sp: "sp = (s, e)" by (cases sp)
  from Cons.prems sp have b: "pos \<le> s" "s \<le> e" "e \<le> length raw" and ok: "spans_ok e (length raw) spans"
    by simp_all
  from Cons.IH[OF ok b(3)] have ih: "concat (map text_of (split_segments raw e spans)) = drop e raw" .
  have "slice raw pos s @ slice raw s e @ drop e raw = drop pos raw"
    using b by (simp add: slice_cat)
  moreover have "pos = s \<Longrightarrow> slice raw pos s = []" by (simp add: slice_def)
  ultimately show ?case using sp ih b by (cases "pos < s") auto
qed

lemma renderSpans_segments:
  "renderSpans raw True spans pos out = out @ concat (map render_segment (split_segments raw pos spans))"
  by (induction raw True spans pos out rule: renderSpans.induct) auto

text \<open>
  C8. For every raw line and every filter, with colour enabled: the match spans are
  found on the raw text; the segments they split the line into make up the raw line,
  byte for byte; the line is rendered segment by segment, generic colouring on the
  segments outside the matches only and each match wrapped unchanged in the one match
  colour; without a match the whole line is coloured generically. Hence a line that is
  one match, such as a level keyword that the filter matches, is the match colour, the
  line and one reset: two escape bytes when the line holds none, one wrapper.
\<close>

theorem C8_renderLine_overlays_matches:
  "concat (map text_of (split_segments raw 0 (FindAllStringIndex rx raw))) = raw
   \<and> (FindAllStringIndex rx raw \<noteq> [] \<longrightarrow>
        renderLine raw (Some rx) True
          = concat (map render_segment (split_segments raw 0 (FindAllStringIndex rx raw))))
   \<and> (FindAllStringIndex rx raw = [] \<longrightarrow>
        renderLine raw (Some rx) True = colorizeGeneric raw True)
   \<and> (raw \<noteq> [] \<and> FindAllStringIndex rx raw = [(0, length raw)] \<longrightarrow>
        renderLine raw (Some rx) True = ansiCyan @ raw @ ansiReset
        \<and> (ESC \<notin> set raw \<longrightarrow> length (filter (\<lambda>c. c = ESC) (renderLine raw (Some rx) True)) = 2))"
proof (intro conjI impI)
  show "concat (map text_of (split_segments raw 0 (FindAllStringIndex rx raw))) = raw"
    using segments_partition[OF FindAllStringIndex_spans_ok, of raw rx] by simp
next
  assume "FindAllStringIndex rx raw \<noteq> []"
  then show "renderLine raw (Some rx) True
          = concat (map render_segment (split_segments raw 0 (FindAllStringIndex rx raw)))"
    by (simp add: renderLine_def Let_def renderSpans_segments)
next
  assume "FindAllStringIndex rx raw = []"
  then show "renderLine raw (Some rx) True = colorizeGeneric raw True"
    by (simp add: renderLine_def)
next
  assume a: "raw \<noteq> [] \<and> FindAllStringIndex rx raw = [(0, length raw)]"
  then show eq: "renderLine raw (Some rx) True = ansiCyan @ raw @ ansiReset"
    by (simp add: renderLine_def Let_def slice_def)
  assume "ESC \<notin> set raw"
  then have "filter (\<lambda>c. c = ESC) raw = []" by (auto simp: filter_empty_conv)
  then show "length (filter (\<lambda>c. c = ESC) (renderLine raw (Some rx) True)) = 2"
    unfolding eq by (simp add: ansiCyan_def ansiReset_def ESC_def)
qed

theorem C8_witness:
  "''ERROR'' \<noteq> []
   \<and> FindAllStringIndex (MustCompile (lit ''ERROR'')) ''ERROR'' = [(0, length ''ERROR'')]
   \<and> ESC \<notin> set ''ERROR''
   \<and> renderLine ''ERROR'' (Some (MustCompile (lit ''ERROR''))) True = ansiCyan @ ''ERROR'' @ ansiReset
   \<and> length (filter (\<lambda>c. c = ESC) (renderLine ''ERROR'' (Some (MustCompile (lit ''ERROR''))) True)) = 2
   \<and> colorizeGeneric ''ERROR'' True = ansiRed @ ''ERROR'' @ ansiReset
   \<and> FindAllStringIndex (MustCompile (lit ''RR'')) ''boom ERROR'' \<noteq> []
   \<and> renderLine ''boom ERROR'' (Some (MustCompile (lit ''RR''))) True
       = ''boom E'' @ ansiCyan @ ''RR'' @ ansiReset @ ''OR''
   \<and> FindAllStringIndex (MustCompile (lit ''RR'')) ''fine'' = []
   \<and> renderLine ''fine'' (Some (MustCompile (lit ''RR''))) True = colorizeGeneric ''fine'' True"
proof -
  have fa1: "FindAllStringIndex (MustCompile (lit ''ERROR'')) ''ERROR'' = [(0, length ''ERROR'')]"
    by code_simp
  have fa3: "FindAllStringIndex (MustCompile (lit ''RR'')) ''boom ERROR'' = [(6, 8)]"
    by code_simp
  have fa4: "FindAllStringIndex (MustCompile (lit ''RR'')) ''fine'' = []"
    by code_simp
  have cg1: "colorizeGeneric ''ERROR'' True = ansiRed @ ''ERROR'' @ ansiReset"
    by code_simp
  have cg4: "colorizeGeneric ''boom E'' True = ''boom E''"
    by code_simp
  have cg5: "colorizeGeneric ''OR'' True = ''OR''"
    by code_simp
  have esc: "ESC \<notin> set ''ERROR''" by (simp add: ESC_def)
  from C8_renderLine_overlays_matches[of "''ERROR''" "MustCompile (lit ''ERROR'')"] fa1 esc
  have a: "renderLine ''ERROR'' (Some (MustCompile (lit ''ERROR''))) True = ansiCyan @ ''ERROR'' @ ansiReset"
    and b: "length (filter (\<lambda>c. c = ESC) (renderLine ''ERROR'' (Some (MustCompile (lit ''ERROR''))) True)) = 2"
    by blast+
  from C8_renderLine_overlays_matches[of "''boom ERROR''" "MustCompile (lit ''RR'')"] fa3
  have "renderLine ''boom ERROR'' (Some (MustCompile (lit ''RR''))) True
          = concat (map render_segment (split_segments ''boom ERROR'' 0 [(6, 8)]))"
    by simp
  then have c: "renderLine ''boom ERROR'' (Some (MustCompile (lit ''RR''))) True
       = ''boom E'' @ ansiCyan @ ''RR'' @ ansiReset @ ''OR''"
    by (simp add: slice_def cg4 cg5)
  from C8_renderLine_overlays_matches[of "''fine''" "MustCompile (lit ''RR'')"] fa4
  have d: "renderLine ''fine'' (Some (MustCompile (lit ''RR''))) True = colorizeGeneric ''fine'' True"
    by blast
  from fa1 fa3 fa4 cg1 esc a b c d show ?thesis by simp
qed

subsection \<open>colorizeGeneric\<close>

lemma ci_trans: "codes_inserted b c \<Longrightarrow> codes_inserted a b \<Longrightarrow> codes_inserted a c"
  by (induction rule: codes_inserted.induct) (auto intro: codes_inserted.intros)

lemma ci_prepend: "codes_inserted s t \<Longrightarrow> codes_inserted (p @ s) (p @ t)"
proof (induction rule: codes_inserted.induct)
  case (same s)
  then show ?case by (rule codes_inserted.same)
next
  case (ins s u v c)
  from codes_inserted.ins[of "p @ s" "p @ u" v c] ins show ?case by simp
qed

lemma ci_append: "codes_inserted s t \<Longrightarrow> codes_inserted (s @ q) (t @ q)"
proof (induction rule: codes_inserted.induct)
  case (same s)
  then show ?case by (rule codes_inserted.same)
next
  case (ins s u v c)
  from codes_inserted.ins[of "s @ q" u "v @ q" c] ins show ?case by simp
qed

lemma ci_cong: "codes_inserted a a' \<Longrightarrow> codes_inserted b b' \<Longrightarrow> codes_inserted (a @ b) (a' @ b')"
  using ci_trans[OF ci_prepend[of b b' a'] ci_append[of a a' b]] by simp

lemma ci_wrap:
  assumes "c \<in> set ansi_codes"
  shows "codes_inserted m (wrap c m)"
proof -
  have "codes_inserted m ([] @ c @ m)"
    using codes_inserted.ins[of m "[]" m c] assms by (simp add: codes_inserted.same)
  then have "codes_inserted m ((c @ m) @ ansiReset @ [])"
    by (intro codes_inserted.ins) (simp_all add: ansi_codes_def)
  then show ?thesis by (simp add: wrap_def)
qed

lemma ci_levelRepl: "codes_inserted m (levelRepl m)"
  by (auto simp: levelRepl_def Let_def ansi_codes_def intro!: ci_wrap codes_inserted.same)

lemma ci_replace_all:
  assumes "\<forall>m g. codes_inserted m (repl m g)"
  shows "codes_inserted s (replace_all rx repl am p s)"
  using assms
proof (induction rx repl am p s rule: replace_all.induct)
  case (1 rx repl am p)
  then show ?case by (auto split: option.splits intro: codes_inserted.same)
next
  case (2 rx repl am p c cs)
  note r = \<open>\<forall>m g. codes_inserted m (repl m g)\<close>
  show ?case
  proof (cases "match_here rx p (c # cs)")
    case None
    with 2(1)[OF None r] ci_prepend[of cs _ "[c]"] show ?thesis by simp
  next
    case (Some a)
    obtain n g where a: "a = (n, g)" by (cases a)
    show ?thesis
    proof (cases "n = 0")
      case True
      from 2(2)[OF Some a[symmetric] True r]
      have rest: "codes_inserted ([c] @ cs) ([c] @ replace_all rx repl False (Some c) cs)"
        by (rule ci_prepend)
      have "codes_inserted [] (if am then [] else repl [] g)"
        using r by (auto intro: codes_inserted.same)
      from ci_cong[OF this rest] Some a True show ?thesis by simp
    next
      case False
      have "codes_inserted (take n (c # cs)) (repl (take n (c # cs)) g)" using r by blast
      from ci_cong[OF this 2(3)[OF Some a[symmetric] False r]]
      have "codes_inserted (take n (c # cs) @ drop n (c # cs))
              (repl (take n (c # cs)) g
               @ replace_all rx repl True (Some (last (take n (c # cs)))) (drop n (c # cs)))" .
      then have "codes_inserted (c # cs)
              (repl (take n (c # cs)) g
               @ replace_all rx repl True (Some (last (take n (c # cs)))) (drop n (c # cs)))"
        by (simp only: append_take_drop_id)
      with Some a False show ?thesis by (simp del: take_Cons' drop_Cons' take_Suc_Cons)
    qed
  qed
qed

lemma ci_pass: "(\<And>m. codes_inserted m (f m)) \<Longrightarrow> codes_inserted s (pass r f s)"
  unfolding pass_def ReplaceAllStringFunc_def by (rule ci_replace_all) simp


lemma colorizeGeneric_plain_passes:
  assumes "\<not> MatchString (MustCompile reJSONLine) seg" "\<not> MatchString (MustCompile reYAMLKey) seg"
  shows "colorizeGeneric seg True =
           pass reNum (wrap ansiBold) (pass reLvl levelRepl (pass rePath (wrap ansiMagenta)
             (pass reIP (wrap ansiCyan) (pass reURL (wrap ansiMagenta) (pass reTS (wrap ansiDim) seg)))))"
  using assms by (simp add: colorizeGeneric_def pass_def Let_def)

text \<open>
  C9, as the code has it. Without colour colorizeGeneric returns the segment. With
  colour, on a segment that the structured pass does not apply to (it neither looks like
  JSON nor starts with a YAML key), the six passes for timestamp, URL, IP, path, level and
  number run one after the other, each on the output of the one before, and each only
  puts colour codes around its matches: the output is the segment with codes inserted,
  so that taking the inserted codes out again leaves the segment, byte for byte.
\<close>

theorem C9_generic_passes_insert_codes_only:
  "colorizeGeneric seg False = seg
   \<and> (\<not> MatchString (MustCompile reJSONLine) seg \<and> \<not> MatchString (MustCompile reYAMLKey) seg \<longrightarrow>
        colorizeGeneric seg True =
           pass reNum (wrap ansiBold) (pass reLvl levelRepl (pass rePath (wrap ansiMagenta)
             (pass reIP (wrap ansiCyan) (pass reURL (wrap ansiMagenta) (pass reTS (wrap ansiDim) seg)))))
        \<and> codes_inserted seg (colorizeGeneric seg True))"
proof (intro conjI impI)
  show "colorizeGeneric seg False = seg" by (simp add: colorizeGeneric_def)
next
  assume a: "\<not> MatchString (MustCompile reJSONLine) seg \<and> \<not> MatchString (MustCompile reYAMLKey) seg"
  then show eq: "colorizeGeneric seg True =
           pass reNum (wrap ansiBold) (pass reLvl levelRepl (pass rePath (wrap ansiMagenta)
             (pass reIP (wrap ansiCyan) (pass reURL (wrap ansiMagenta) (pass reTS (wrap ansiDim) seg)))))"
    using colorizeGeneric_plain_passes by blast
  have w: "\<And>c m. c \<in> set ansi_codes \<Longrightarrow> codes_inserted m (wrap c m)" by (rule ci_wrap)
  let ?s1 = "pass reTS (wrap ansiDim) seg"
  let ?s2 = "pass reURL (wrap ansiMagenta) ?s1"
  let ?s3 = "pass reIP (wrap ansiCyan) ?s2"
  let ?s4 = "pass rePath (wrap ansiMagenta) ?s3"
  let ?s5 = "pass reLvl levelRepl ?s4"
  let ?s6 = "pass reNum (wrap ansiBold) ?s5"
  have 1: "codes_inserted seg ?s1" by (rule ci_pass, rule w) (simp add: ansi_codes_def)
  have 2: "codes_inserted ?s1 ?s2" by (rule ci_pass, rule w) (simp add: ansi_codes_def)
  have 3: "codes_inserted ?s2 ?s3" by (rule ci_pass, rule w) (simp add: ansi_codes_def)
  have 4: "codes_inserted ?s3 ?s4" by (rule ci_pass, rule w) (simp add: ansi_codes_def)
  have 5: "codes_inserted ?s4 ?s5" by (rule ci_pass, rule ci_levelRepl)
  have 6: "codes_inserted ?s5 ?s6" by (rule ci_pass, rule w) (simp add: ansi_codes_def)
  have "codes_inserted seg ?s6"
    using 1 2 3 4 5 6 by (blast intro: ci_trans)
  then show "codes_inserted seg (colorizeGeneric seg True)" unfolding eq .
qed

theorem C9_witness:
  "\<not> MatchString (MustCompile reJSONLine) ''10.0.0.1''
   \<and> \<not> MatchString (MustCompile reYAMLKey) ''10.0.0.1''
   \<and> colorizeGeneric ''10.0.0.1'' False = ''10.0.0.1''
   \<and> codes_inserted ''10.0.0.1'' (colorizeGeneric ''10.0.0.1'' True)"
proof -
  have h: "\<not> MatchString (MustCompile reJSONLine) ''10.0.0.1''
           \<and> \<not> MatchString (MustCompile reYAMLKey) ''10.0.0.1''"
    by code_simp
  with C9_generic_passes_insert_codes_only[of "''10.0.0.1''"] show ?thesis by blast
qed

text \<open>
  What C9 states does not hold. The passes are not matched against the raw text: in
  an IP address, coloured as a whole by the IP pass, the number pass then colours the
  numbers that the inserted codes leave between word boundaries, inside the span that
  is tagged already. And on a segment with a YAML key that is followed by a blank, the
  structured pass loses the blank and replaces the bracket inside the colour codes that
  were inserted just before: the output holds no blank at all.
\<close>

theorem C9_passes_counterexample:
  "colorizeGeneric ''10.0.0.1'' True
     = ansiCyan @ ''10.'' @ ansiBold @ ''0'' @ ansiReset @ ''.'' @ ansiBold @ ''0'' @ ansiReset
       @ ''.'' @ ansiBold @ ''1'' @ ansiReset @ ansiReset
   \<and> colorizeGeneric ''k :v'' True
     = [ESC] @ ansiDim @ ''['' @ ansiReset @ ''34mk'' @ [ESC] @ ansiDim @ ''['' @ ansiReset @ ''0m:v''
   \<and> CHR '' '' \<in> set ''k :v''
   \<and> CHR '' '' \<notin> set (colorizeGeneric ''k :v'' True)"
proof -
  have ip: "colorizeGeneric ''10.0.0.1'' True
     = ansiCyan @ ''10.'' @ ansiBold @ ''0'' @ ansiReset @ ''.'' @ ansiBold @ ''0'' @ ansiReset
       @ ''.'' @ ansiBold @ ''1'' @ ansiReset @ ansiReset"
    by code_simp
  have yaml: "colorizeGeneric ''k :v'' True
     = [ESC] @ ansiDim @ ''['' @ ansiReset @ ''34mk'' @ [ESC] @ ansiDim @ ''['' @ ansiReset @ ''0m:v''"
    by code_simp
  have "CHR '' '' \<notin> set ([ESC] @ ansiDim @ ''['' @ ansiReset @ ''34mk'' @ [ESC] @ ansiDim @ ''['' @ ansiReset @ ''0m:v'')"
    by (simp add: ESC_def ansiDim_def ansiReset_def)
  with ip yaml show ?thesis by simp
qed

end
